theory Spec2Isabelle
  imports Complex_Main "HOL-Library.Word" "HOL-Library.Monad_Syntax"
begin

unbundle bit_operations_syntax

section \<open>Data model\<close>

text \<open>
  The statistical test engine of \<^verbatim>\<open>stats.cpp\<close> works on a caller-supplied array of
  32-bit words, given as a pointer and a count. The array is a list of \<open>32 word\<close>; the
  count stays an explicit argument, as in the source, and a function that would read
  past the end of the list returns \<open>None\<close>.

  Conventions of the embedding:
  \<^item> \<^verbatim>\<open>size_t\<close> is 64 bits wide: \<^verbatim>\<open>len * 32\<close> is computed modulo \<open>2 ^ 64\<close>.
  \<^item> \<^verbatim>\<open>int\<close> is 32 bits wide. A conversion or an increment that would leave the range
    of \<^verbatim>\<open>int\<close> is undefined in C++ and yields \<open>None\<close>.
  \<^item> \<^verbatim>\<open>int64_t\<close> and \<^verbatim>\<open>uint64_t\<close> counters are bounded by the number of bits read,
    which is below \<open>2 ^ 64\<close>; they are integers and naturals here, with the bound
    proved where a claim depends on it. Products of counters wrap modulo \<open>2 ^ 64\<close>.
  \<^item> \<^verbatim>\<open>double\<close>. The summary statistics \<open>mean\<close> and \<open>stdev\<close> and the runs test are
    modelled in binary64 arithmetic, operation by operation (section
    \<open>Binary64 arithmetic\<close>): what they return depends on the rounding. Every operation
    rounds on its own (no fused multiply-add), and a result that is an infinity or a NaN
    yields \<open>None\<close>. In the other functions a \<^verbatim>\<open>double\<close> is a real number and the
    rounding is abstracted away: what is proved of them are integer counts, loop bounds
    and the formula of the statistic. There a division whose divisor is zero has no
    real value (IEEE gives an infinity or a NaN) and yields \<open>None\<close>; it is written
    \<open>fdiv\<close>. Plain division is used only under a guard, written in the definition,
    that makes the divisor nonzero.
  \<^item> \<^verbatim>\<open>erfc\<close> of the C library is a parameter of every test that calls it. Its
    values are doubles, and no double lies between \<open>0.01\<close> and the double nearest to it:
    comparing such a value with either is the same comparison, written \<open>\<ge> 0.01\<close>.

  So \<open>None\<close> says that a run leaves the modelled domain: the source has undefined
  behaviour there, or goes on computing with an infinity or a NaN. Every claim below is
  proved with a result \<open>Some\<close>, under hypotheses that keep the run inside the domain.
\<close>

type_synonym u32 = "32 word"

definition fdiv :: "real \<Rightarrow> real \<Rightarrow> real option" where
  "fdiv x y = (if y = 0 then None else Some (x / y))"

text \<open>\<^verbatim>\<open>size_t n = len * 32\<close>.\<close>

definition size_mul32 :: "nat \<Rightarrow> nat" where
  "size_mul32 len = (len * 32) mod 2 ^ 64"

text \<open>\<^verbatim>\<open>(w[i / 32] >> (i % 32)) & 1\<close>.\<close>

definition bit_at :: "u32 list \<Rightarrow> nat \<Rightarrow> nat" where
  "bit_at w i = unat (drop_bit (i mod 32) (w ! (i div 32)) AND 1)"

text \<open>
  \<^verbatim>\<open>(int)x\<close> for a \<^verbatim>\<open>double x\<close>: the fractional part is discarded (truncation
  toward zero); undefined when the truncated value is not an \<^verbatim>\<open>int\<close>.
\<close>

definition int_of_double :: "real \<Rightarrow> int option" where
  "int_of_double x =
     (let t = (if 0 \<le> x then \<lfloor>x\<rfloor> else \<lceil>x\<rceil>)
      in if - (2 ^ 31) \<le> t \<and> t < 2 ^ 31 then Some t else None)"

section \<open>Binary64 arithmetic\<close>

text \<open>
  A finite \<^verbatim>\<open>double\<close> is a real number \<open>k * 2^e\<close> with \<open>|k| < 2^53\<close> and \<open>e \<ge> -1074\<close>, of
  magnitude below \<open>2^1024\<close>. An operation of IEEE-754 returns the exact result rounded to
  the nearest such number, and of two nearest ones the one with an even \<open>k\<close>.

  \<open>round_even\<close> rounds a real to the nearest integer, ties to the even one. \<open>ulp_exp x\<close>
  is the exponent \<open>e\<close> of the doubles next to \<open>x\<close>: 52 below the binary exponent of \<open>x\<close>,
  and \<open>-1074\<close> in the subnormal range. \<open>rnd x\<close> is \<open>x\<close> rounded to a multiple of \<open>2^e\<close>.
\<close>

definition round_even :: "real \<Rightarrow> int" where
  "round_even x =
     (let f = \<lfloor>x\<rfloor>; r = x - of_int f
      in if r < 1 / 2 then f else if 1 / 2 < r then f + 1 else if even f then f else f + 1)"

definition ulp_exp :: "real \<Rightarrow> int" where
  "ulp_exp x = max (\<lfloor>log 2 \<bar>x\<bar>\<rfloor> - 52) (- 1074)"

definition rnd :: "real \<Rightarrow> real" where
  "rnd x = (if x = 0 then 0
            else of_int (round_even (x / 2 powi ulp_exp x)) * 2 powi ulp_exp x)"

text \<open>
  A rounded result of magnitude \<open>2^1024\<close> or more is an infinity: \<open>None\<close>. So are a
  division by zero and the square root of a negative number (an infinity or a NaN).
\<close>

definition dbl :: "real \<Rightarrow> real option" where
  "dbl x = (if \<bar>rnd x\<bar> < 2 ^ 1024 then Some (rnd x) else None)"

definition dadd :: "real \<Rightarrow> real \<Rightarrow> real option" where
  "dadd x y = dbl (x + y)"

definition dsub :: "real \<Rightarrow> real \<Rightarrow> real option" where
  "dsub x y = dbl (x - y)"

definition dmul :: "real \<Rightarrow> real \<Rightarrow> real option" where
  "dmul x y = dbl (x * y)"

definition ddiv :: "real \<Rightarrow> real \<Rightarrow> real option" where
  "ddiv x y = (if y = 0 then None else dbl (x / y))"

definition dsqrt :: "real \<Rightarrow> real option" where
  "dsqrt x = (if x < 0 then None else dbl (sqrt x))"

section \<open>Summary statistics\<close>

text \<open>
  \<^verbatim>\<open>uint64_t sum = 0; for (int i = 0; i < n; ++i) sum += data[i];\<close>
  The accumulator is a 64-bit word: its addition wraps.
\<close>

definition sum64 :: "u32 list \<Rightarrow> nat \<Rightarrow> 64 word" where
  "sum64 data n = fold (\<lambda>i sum. sum + ucast (data ! i)) [0..<n] 0"

text \<open>
  \<^verbatim>\<open>return (double)sum / n;\<close> The conversion of the 64-bit sum rounds; \<open>n\<close> is an
  \<^verbatim>\<open>int\<close>, which converts exactly.
\<close>

definition mean :: "u32 list \<Rightarrow> int \<Rightarrow> real option" where
  "mean data n =
     (if length data < nat n then None
      else do {
        s \<leftarrow> dbl (real (unat (sum64 data (nat n))));
        ddiv s (real_of_int n)
      })"

text \<open>
  The loop body \<^verbatim>\<open>acc += (data[i] - m) * (data[i] - m);\<close> on the accumulator \<open>acc\<close>
  (\<open>data[i]\<close> converts exactly), and \<^verbatim>\<open>return sqrt(acc / n);\<close>
\<close>

definition stdev_step :: "u32 list \<Rightarrow> real \<Rightarrow> nat \<Rightarrow> real option \<Rightarrow> real option" where
  "stdev_step data m i acc =
     do {
       a \<leftarrow> acc;
       d \<leftarrow> dsub (real (unat (data ! i))) m;
       sq \<leftarrow> dmul d d;
       dadd a sq
     }"

definition stdev_acc :: "u32 list \<Rightarrow> nat \<Rightarrow> real \<Rightarrow> real option" where
  "stdev_acc data n m = fold (stdev_step data m) [0..<n] (Some 0)"

definition stdev :: "u32 list \<Rightarrow> int \<Rightarrow> real \<Rightarrow> real option" where
  "stdev data n m =
     (if length data < nat n then None
      else do {
        acc \<leftarrow> stdev_acc data (nat n) m;
        v \<leftarrow> ddiv acc (real_of_int n);
        dsqrt v
      })"

definition coeff_var :: "real \<Rightarrow> real \<Rightarrow> real option" where
  "coeff_var m sd = (if m = 0 then Some 0 else fdiv sd m)"

text \<open>
  The composition of the driver: \<^verbatim>\<open>m_i = mean(buffer, n); s_i = stdev(buffer, n, m_i);\<close>
\<close>

definition stdev_of_mean :: "u32 list \<Rightarrow> int \<Rightarrow> real option" where
  "stdev_of_mean data n = (case mean data n of None \<Rightarrow> None | Some m \<Rightarrow> stdev data n m)"

section \<open>Chi-squared uniformity statistic\<close>

text \<open>
  \<^verbatim>\<open>int idx = ((uint64_t)data[i] * bins) / max_val; if (idx >= bins) idx = bins - 1;\<close>
  The product is a 64-bit unsigned product; the quotient is narrowed to \<^verbatim>\<open>int\<close>.
\<close>

definition chi_bin :: "u32 \<Rightarrow> int \<Rightarrow> nat \<Rightarrow> int" where
  "chi_bin x bins max_val =
     (let q = ((unat x * nat bins) mod 2 ^ 64) div max_val;
          idx = sint (word_of_nat q :: 32 word)
      in if idx \<ge> bins then bins - 1 else idx)"

definition chi_freq :: "u32 list \<Rightarrow> nat \<Rightarrow> int \<Rightarrow> nat \<Rightarrow> nat list" where
  "chi_freq data n bins max_val =
     fold (\<lambda>i freq. let idx = nat (chi_bin (data ! i) bins max_val)
                     in freq[idx := freq ! idx + 1])
       [0..<n] (replicate (nat bins) 0)"

text \<open>
  The body of the second loop, \<^verbatim>\<open>diff = freq[i] - expected; chi2 += diff * diff / expected;\<close>
  on the accumulator \<open>chi2\<close>; once a division has no value, neither has the sum.
\<close>

definition chi_sum_step :: "nat list \<Rightarrow> real \<Rightarrow> nat \<Rightarrow> real option \<Rightarrow> real option" where
  "chi_sum_step freq expected i acc =
     (case acc of
        None \<Rightarrow> None
      | Some chi2 \<Rightarrow>
          let diff = real (freq ! i) - expected
          in (case fdiv (diff * diff) expected of
                None \<Rightarrow> None
              | Some t \<Rightarrow> Some (chi2 + t)))"

definition chi_sum :: "nat list \<Rightarrow> real \<Rightarrow> nat \<Rightarrow> real option" where
  "chi_sum freq expected bins = fold (chi_sum_step freq expected) [0..<bins] (Some 0)"

text \<open>
  With \<open>bins < 1\<close> the source writes outside \<open>freq\<close>, and with \<open>max_val = 0\<close> it
  divides an integer by zero, as soon as \<open>n > 0\<close>; a negative \<open>idx\<close> is a write
  before the start of \<open>freq\<close>. All three are \<open>None\<close>.
\<close>

definition chi_squared :: "u32 list \<Rightarrow> int \<Rightarrow> int \<Rightarrow> nat \<Rightarrow> real option" where
  "chi_squared data n bins max_val =
     (if length data < nat n \<or> bins < 1 \<or> max_val = 0 then None
      else if list_ex (\<lambda>i. chi_bin (data ! i) bins max_val < 0) [0..<nat n] then None
      else
        let freq = chi_freq data (nat n) bins max_val;
            expected = real_of_int n / real_of_int bins
        in chi_sum freq expected (nat bins))"

section \<open>Monobit test\<close>

text \<open>\<^verbatim>\<open>while (x) { count += x & 1u; x >>= 1; }\<close>\<close>

function popcount32_loop :: "u32 \<Rightarrow> int \<Rightarrow> int" where
  "popcount32_loop x count =
     (if x \<noteq> 0 then popcount32_loop (drop_bit 1 x) (count + uint (x AND 1)) else count)"
  by pat_completeness auto
termination
proof (relation "measure (\<lambda>(x, count). unat x)")
  show "wf (measure (\<lambda>(x :: u32, count :: int). unat x))"
    by simp
next
  fix x :: u32 and count :: int
  assume "x \<noteq> 0"
  then have "0 < unat x"
    by (simp add: unat_gt_0)
  then have "unat x div 2 < unat x"
    by simp
  then show "((drop_bit 1 x, count + uint (x AND 1)), (x, count))
      \<in> measure (\<lambda>(x, count). unat x)"
    by (simp add: drop_bit_eq_div unat_div)
qed

declare popcount32_loop.simps [simp del]

definition popcount32 :: "u32 \<Rightarrow> int" where
  "popcount32 x = popcount32_loop x 0"

definition monobit_ones :: "u32 list \<Rightarrow> nat \<Rightarrow> int" where
  "monobit_ones w len = fold (\<lambda>i ones. ones + popcount32 (w ! i)) [0..<len] 0"

text \<open>
  \<^verbatim>\<open>int n = (int)len * 32;\<close> is defined only while the product is an \<^verbatim>\<open>int\<close>.
\<close>

definition int_mul32 :: "nat \<Rightarrow> int option" where
  "int_mul32 len = (if len * 32 < 2 ^ 31 then Some (int len * 32) else None)"

definition nist_monobit :: "(real \<Rightarrow> real) \<Rightarrow> u32 list \<Rightarrow> nat \<Rightarrow> int option" where
  "nist_monobit erfc w len =
     (if length w < len then None
      else
        let ones = monobit_ones w len in
        (case int_mul32 len of
           None \<Rightarrow> None
         | Some n \<Rightarrow>
        (case fdiv \<bar>2 * real_of_int ones - real_of_int n\<bar> (sqrt (real_of_int n)) of
           None \<Rightarrow> None
         | Some s \<Rightarrow> Some (if erfc (s / sqrt 2) \<ge> 0.01 then 1 else 0))))"

section \<open>Block frequency test\<close>

text \<open>
  The inner loop \<^verbatim>\<open>for (size_t i = 0; i < M; ++i, ++bit)\<close> on the pair \<open>(ones, bit)\<close>,
  and the outer loop over the blocks on the pair \<open>(chi, bit)\<close>. The division by \<open>M\<close>
  stands under the guard \<open>M \<noteq> 0\<close> of \<open>nist_block_frequency\<close>, the one by
  \<open>sqrt (nBlocks / 2)\<close> under \<open>nBlocks \<ge> 20\<close>.
\<close>

definition bf_inner :: "u32 list \<Rightarrow> nat \<Rightarrow> int \<times> nat \<Rightarrow> int \<times> nat" where
  "bf_inner w i = (\<lambda>(ones, bit). (ones + int (bit_at w bit), bit + 1))"

definition bf_block :: "u32 list \<Rightarrow> nat \<Rightarrow> nat \<Rightarrow> real \<times> nat \<Rightarrow> real \<times> nat" where
  "bf_block w M b =
     (\<lambda>(chi, bit).
        let (ones, bit') = fold (bf_inner w) [0..<M] (0, bit);
            pi' = real_of_int ones / real M
        in (chi + (pi' - 0.5) * (pi' - 0.5), bit'))"

text \<open>\<open>M = 0\<close> is an integer division by zero in \<^verbatim>\<open>nBits / M\<close>.\<close>

definition nist_block_frequency ::
  "(real \<Rightarrow> real) \<Rightarrow> u32 list \<Rightarrow> nat \<Rightarrow> nat \<Rightarrow> int option" where
  "nist_block_frequency erfc w len M =
     (let nBits = size_mul32 len in
      if M = 0 then None
      else
        let nBlocks = nBits div M in
        if nBlocks < 20 then Some 0
        else if length w < len then None
        else
          let (chi, bit) = fold (bf_block w M) [0..<nBlocks] (0, 0);
              chi' = chi * (4 * real M);
              p = erfc (sqrt (chi' / 2) / sqrt (real nBlocks / 2))
          in Some (if p \<ge> 0.01 then 1 else 0))"

section \<open>Runs test\<close>

text \<open>
  The loop body on the triple \<open>(ones, prev, runsCnt)\<close>:
  \<^verbatim>\<open>ones += bit; if (bit != prev) { ++runsCnt; prev = bit; }\<close>
\<close>

definition runs_step :: "u32 list \<Rightarrow> nat \<Rightarrow> int \<times> int \<times> int \<Rightarrow> int \<times> int \<times> int" where
  "runs_step w i =
     (\<lambda>(ones, prev, runsCnt).
        let bit = int (bit_at w i)
        in if bit \<noteq> prev then (ones + bit, bit, runsCnt + 1)
           else (ones + bit, prev, runsCnt))"

definition runs_walk :: "u32 list \<Rightarrow> nat \<Rightarrow> int \<times> int \<times> int" where
  "runs_walk w n =
     (let prev = uint (w ! 0 AND 1)
      in fold (runs_step w) [1..<n] (prev, prev, 1))"

text \<open>
  The arithmetic after the loop, on \<open>n\<close>, \<open>ones\<close> and \<open>runsCnt\<close>:
  \<^verbatim>\<open>double pi = (double)ones / (double)n;\<close>
  \<^verbatim>\<open>if (fabs(pi - 0.5) > 2.0 / sqrt((double)n)) return 0;\<close>
  \<^verbatim>\<open>double expRuns = 2.0 * n * pi * (1.0 - pi);\<close>
  \<^verbatim>\<open>double z = fabs(runsCnt - expRuns) / (2.0 * sqrt(2.0 * n) * pi * (1.0 - pi));\<close>
  \<^verbatim>\<open>return erfc(z) >= 0.01;\<close>
  Products associate to the left; \<open>2.0 * n\<close> is computed twice, with the same value.
\<close>

definition runs_decide :: "(real \<Rightarrow> real) \<Rightarrow> nat \<Rightarrow> int \<Rightarrow> int \<Rightarrow> int option" where
  "runs_decide erfc n ones runsCnt =
     do {
       dn \<leftarrow> dbl (real n);
       dones \<leftarrow> dbl (real_of_int ones);
       pi' \<leftarrow> ddiv dones dn;
       root \<leftarrow> dsqrt dn;
       bound \<leftarrow> ddiv 2 root;
       dev \<leftarrow> dsub pi' 0.5;
       if \<bar>dev\<bar> > bound then Some 0
       else do {
         n2 \<leftarrow> dmul 2 dn;
         t \<leftarrow> dmul n2 pi';
         omp \<leftarrow> dsub 1 pi';
         expRuns \<leftarrow> dmul t omp;
         num \<leftarrow> dsub (real_of_int runsCnt) expRuns;
         root2 \<leftarrow> dsqrt n2;
         u1 \<leftarrow> dmul 2 root2;
         u2 \<leftarrow> dmul u1 pi';
         den \<leftarrow> dmul u2 omp;
         z \<leftarrow> ddiv \<bar>num\<bar> den;
         Some (if erfc z \<ge> 0.01 then 1 else 0)
       }
     }"

text \<open>
  \<open>runsCnt\<close> is an \<^verbatim>\<open>int\<close> that only grows: it overflows exactly when its final
  value would not be an \<^verbatim>\<open>int\<close>. Reading \<^verbatim>\<open>w[0]\<close> needs \<open>len \<ge> 1\<close>.
\<close>

definition nist_runs :: "(real \<Rightarrow> real) \<Rightarrow> u32 list \<Rightarrow> nat \<Rightarrow> int option" where
  "nist_runs erfc w len =
     (let n = size_mul32 len in
      if len = 0 \<or> length w < len then None
      else
        let (ones, prev, runsCnt) = runs_walk w n in
        if runsCnt \<ge> 2 ^ 31 then None
        else runs_decide erfc n ones runsCnt)"

section \<open>Cumulative sums test\<close>

text \<open>
  The body of the first loop of \<^verbatim>\<open>nist_cumulative_sums\<close>, on the pair \<open>(s, zmax)\<close>:
  \<^verbatim>\<open>s += bit ? 1 : -1; if (s > zmax) zmax = s; else if (-s > zmax) zmax = -s;\<close>
\<close>

definition cusum_step :: "u32 list \<Rightarrow> nat \<Rightarrow> int \<times> int \<Rightarrow> int \<times> int" where
  "cusum_step w i =
     (\<lambda>(s, zmax).
        let bit = bit_at w i;
            s' = s + (if bit \<noteq> 0 then 1 else - 1)
        in (s', if s' > zmax then s' else if - s' > zmax then - s' else zmax))"

definition cusum_walk :: "u32 list \<Rightarrow> nat \<Rightarrow> int \<times> int" where
  "cusum_walk w n = fold (cusum_step w) [0..<n] (0, 0)"

definition cusum_zmax :: "u32 list \<Rightarrow> nat \<Rightarrow> int" where
  "cusum_zmax w len = snd (cusum_walk w (size_mul32 len))"

text \<open>
  The second loop, \<^verbatim>\<open>for (int k = start; k <= end; ++k)\<close>, on the accumulator \<open>p\<close>.
  Incrementing \<open>k = INT_MAX\<close> is undefined.
\<close>

function cusum_series ::
  "(real \<Rightarrow> real) \<Rightarrow> nat \<Rightarrow> int \<Rightarrow> int \<Rightarrow> int \<Rightarrow> real \<Rightarrow> real option" where
  "cusum_series erfc n zmax k end p =
     (if k \<le> end then
        (case fdiv ((4 * real_of_int k + 1) * real_of_int zmax) (sqrt (2 * real n)) of
           None \<Rightarrow> None
         | Some a \<Rightarrow>
        (case fdiv ((4 * real_of_int k - 1) * real_of_int zmax) (sqrt (2 * real n)) of
           None \<Rightarrow> None
         | Some b \<Rightarrow>
             if k + 1 < 2 ^ 31
             then cusum_series erfc n zmax (k + 1) end (p - (erfc a - erfc b))
             else None))
      else Some p)"
  by pat_completeness auto
termination
  by (relation "measure (\<lambda>(erfc, n, zmax, k, end, p). nat (end + 1 - k))") auto

declare cusum_series.simps [simp del]

text \<open>The bounds \<open>(start, end)\<close> of the second loop, from \<open>n\<close> and \<open>zmax\<close>.\<close>

definition cusum_range :: "nat \<Rightarrow> int \<Rightarrow> (int \<times> int) option" where
  "cusum_range n zmax =
     (case fdiv (real n) (real_of_int zmax) of
        None \<Rightarrow> None
      | Some q \<Rightarrow>
     (case int_of_double ((- q + 1) / 4) of
        None \<Rightarrow> None
      | Some start \<Rightarrow>
     (case int_of_double ((q - 1) / 4) of
        None \<Rightarrow> None
      | Some end \<Rightarrow> Some (start, end))))"

definition nist_cumulative_sums :: "(real \<Rightarrow> real) \<Rightarrow> u32 list \<Rightarrow> nat \<Rightarrow> int option" where
  "nist_cumulative_sums erfc w len =
     (let n = size_mul32 len in
      if length w < len then None
      else
        let zmax = snd (cusum_walk w n) in
        if zmax = 0 then Some 0
        else
          (case cusum_range n zmax of
             None \<Rightarrow> None
           | Some (start, end) \<Rightarrow>
          (case cusum_series erfc n zmax start end 1 of
             None \<Rightarrow> None
           | Some p \<Rightarrow> Some (if p \<ge> 0.01 then 1 else 0))))"

section \<open>Second-order serial test\<close>

text \<open>
  The loop body on the triple \<open>(c1, c2, prev)\<close>:
  \<^verbatim>\<open>++c1[b]; if (prev != -1) ++c2[(prev << 1) | b]; prev = b;\<close>
\<close>

definition pair_index :: "int \<Rightarrow> int \<Rightarrow> nat" where
  "pair_index prev b = nat (push_bit 1 prev OR b)"

definition serial2_step ::
  "u32 list \<Rightarrow> nat \<Rightarrow> nat list \<times> nat list \<times> int \<Rightarrow> nat list \<times> nat list \<times> int" where
  "serial2_step w i =
     (\<lambda>(c1, c2, prev).
        let b = bit_at w i;
            c1' = c1[b := c1 ! b + 1];
            c2' = (if prev \<noteq> - 1
                   then c2[pair_index prev (int b) := c2 ! pair_index prev (int b) + 1]
                   else c2)
        in (c1', c2', int b))"

definition serial2_walk :: "u32 list \<Rightarrow> nat \<Rightarrow> nat list \<times> nat list \<times> int" where
  "serial2_walk w n = fold (serial2_step w) [0..<n] ([0, 0], [0, 0, 0, 0], - 1)"

text \<open>
  The counters after the closing \<^verbatim>\<open>++c2[(prev << 1) | first]\<close>. With \<open>prev = -1\<close>
  (no bit was read) the index is negative, a write outside \<open>c2\<close>.
\<close>

definition serial2_counts :: "u32 list \<Rightarrow> nat \<Rightarrow> (nat list \<times> nat list) option" where
  "serial2_counts w len =
     (if len = 0 \<or> length w < len then None
      else
        let first = uint (w ! 0 AND 1);
            n = size_mul32 len;
            (c1, c2, prev) = serial2_walk w n
        in if prev = - 1 then None
           else Some (c1, c2[pair_index prev first := c2 ! pair_index prev first + 1]))"

definition nist_serial2 :: "(real \<Rightarrow> real) \<Rightarrow> u32 list \<Rightarrow> nat \<Rightarrow> int option" where
  "nist_serial2 erfc w len =
     (case serial2_counts w len of
        None \<Rightarrow> None
      | Some (c1, c2) \<Rightarrow>
          let dn = real ((c1 ! 0 + c1 ! 1) mod 2 ^ 64) in
          (case fdiv (real ((c1 ! 0 * c1 ! 0 + c1 ! 1 * c1 ! 1) mod 2 ^ 64) * 2) dn of
             None \<Rightarrow> None
           | Some t1 \<Rightarrow>
               let psi1 = t1 - dn;
                   s2 = fold (\<lambda>i psi2. psi2 + real ((c2 ! i * c2 ! i) mod 2 ^ 64)) [0..<4] 0
               in
               (case fdiv (s2 * 4) dn of
                  None \<Rightarrow> None
                | Some t2 \<Rightarrow>
                    let psi2 = t2 - dn;
                        diff = \<bar>psi2 - psi1\<bar>
                    in
                    (case fdiv diff (2 * sqrt (2 * dn)) of
                       None \<Rightarrow> None
                     | Some z \<Rightarrow> Some (if erfc z \<ge> 0.01 then 1 else 0)))))"

section \<open>Reference notions\<close>

text \<open>
  The running sum of the cumulative sums test after \<open>j\<close> bits, every bit mapped to
  \<open>+1\<close> or \<open>-1\<close>.
\<close>

definition prefix_sum :: "u32 list \<Rightarrow> nat \<Rightarrow> int" where
  "prefix_sum w j = (\<Sum>i<j. if bit_at w i \<noteq> 0 then 1 else - 1)"

text \<open>
  The cyclic pair count of the serial test: the number of positions \<open>i\<close> of a stream of
  \<open>n\<close> bits whose pair (bit \<open>i\<close>, bit \<open>i + 1\<close>, the last bit paired with the first) reads
  the pattern \<open>p\<close>, the first bit of the pair being the high bit of \<open>p\<close>. \<open>lin_count\<close>
  counts the pairs inside the first \<open>k\<close> bits, without the wrap-around.
\<close>

definition pair_count :: "u32 list \<Rightarrow> nat \<Rightarrow> nat \<Rightarrow> nat" where
  "pair_count w n p = card {i. i < n \<and> 2 * bit_at w i + bit_at w ((i + 1) mod n) = p}"

definition lin_count :: "u32 list \<Rightarrow> nat \<Rightarrow> nat \<Rightarrow> nat" where
  "lin_count w k p = card {i. Suc i < k \<and> 2 * bit_at w i + bit_at w (Suc i) = p}"

text \<open>
  The histogram of the chi-squared statistic as the design words it: the number of the
  first \<open>n\<close> samples \<open>x\<close> whose bin \<open>\<lfloor>x * B / 2^32\<rfloor>\<close>, clamped to \<open>B - 1\<close>, is \<open>b\<close>.
\<close>

definition bin_count :: "u32 list \<Rightarrow> nat \<Rightarrow> nat \<Rightarrow> nat \<Rightarrow> nat" where
  "bin_count data n B b =
     card {i. i < n \<and> min (unat (data ! i) * B div 2 ^ 32) (B - 1) = b}"

text \<open>
  The number of one-bits among the first \<open>n\<close> bits of the stream, and the number of
  maximal runs of identical consecutive bits in them.
\<close>

definition ones_count :: "u32 list \<Rightarrow> nat \<Rightarrow> nat" where
  "ones_count w n = (\<Sum>i<n. bit_at w i)"

definition runs_count :: "u32 list \<Rightarrow> nat \<Rightarrow> nat" where
  "runs_count w n = length (remdups_adj (map (bit_at w) [0..<n]))"

text \<open>
  The p-value of the cumulative sums test for a bit count \<open>n\<close> and an excursion \<open>z\<close>:
  one minus the sum of \<open>erfc a_k - erfc b_k\<close> over the integers \<open>k\<close> between
  \<open>(1 - n/z) / 4\<close> and \<open>(n/z - 1) / 4\<close>.
\<close>

definition cusum_p :: "(real \<Rightarrow> real) \<Rightarrow> nat \<Rightarrow> int \<Rightarrow> real" where
  "cusum_p erfc n z =
     1 - (\<Sum>k = \<lceil>(1 - real n / real_of_int z) / 4\<rceil>..\<lfloor>(real n / real_of_int z - 1) / 4\<rfloor>.
            erfc ((4 * real_of_int k + 1) * real_of_int z / sqrt (2 * real n))
          - erfc ((4 * real_of_int k - 1) * real_of_int z / sqrt (2 * real n)))"

text \<open>
  The lower bound of the summation as the design words it: the floor of
  \<open>(-n/zmax + 1) / 4\<close>.
\<close>

definition spec_cusum_start :: "nat \<Rightarrow> int \<Rightarrow> int" where
  "spec_cusum_start n zmax = \<lfloor>(- (real n / real_of_int zmax) + 1) / 4\<rfloor>"

text \<open>
  The complementary error function, by the Maclaurin series of the error function:
  the mathematical function that \<^verbatim>\<open>erfc\<close> of the C library approximates.
\<close>

definition erf_series :: "real \<Rightarrow> real" where
  "erf_series x = (\<Sum>n. (- 1) ^ n * x ^ (2 * n + 1) / (fact n * real (2 * n + 1)))"

definition erfc_real :: "real \<Rightarrow> real" where
  "erfc_real x = 1 - 2 / sqrt pi * erf_series x"

text \<open>
  The terms of that series, and the coefficients of the same series written as a power
  series in \<open>x\<close>.
\<close>

definition erf_term :: "real \<Rightarrow> nat \<Rightarrow> real" where
  "erf_term x n = (- 1) ^ n * x ^ (2 * n + 1) / (fact n * real (2 * n + 1))"

definition erf_coeff :: "nat \<Rightarrow> real" where
  "erf_coeff m = (if even m then 0 else (- 1) ^ ((m - 1) div 2) / (fact ((m - 1) div 2) * real m))"

text \<open>
  The sum of the first \<open>k\<close> samples; the squared deviation of sample \<open>i\<close> from \<open>m\<close> and the
  sum of the first \<open>k\<close> of them, as binary64 arithmetic computes them.
\<close>

definition sample_sum :: "u32 list \<Rightarrow> nat \<Rightarrow> nat" where
  "sample_sum data k = (\<Sum>i<k. unat (data ! i))"

definition sq_dev :: "u32 list \<Rightarrow> real \<Rightarrow> nat \<Rightarrow> real" where
  "sq_dev data m i = rnd (rnd (real (unat (data ! i)) - m) * rnd (real (unat (data ! i)) - m))"

definition stdev_sum :: "u32 list \<Rightarrow> nat \<Rightarrow> real \<Rightarrow> real" where
  "stdev_sum data k m = fold (\<lambda>i a. rnd (a + sq_dev data m i)) [0..<k] 0"

text \<open>
  The quantities of the runs test as binary64 arithmetic computes them from the bit
  count \<open>n\<close>, the number of one-bits and the number \<open>r\<close> of runs: the proportion of
  one-bits, the outcome of the pre-check, and the statistic \<open>z\<close>.
\<close>

definition runs_pi :: "nat \<Rightarrow> nat \<Rightarrow> real" where
  "runs_pi n ones = rnd (rnd (real ones) / rnd (real n))"

definition runs_precheck :: "nat \<Rightarrow> nat \<Rightarrow> bool" where
  "runs_precheck n ones \<longleftrightarrow>
     \<bar>rnd (runs_pi n ones - 1 / 2)\<bar> > rnd (2 / rnd (sqrt (rnd (real n))))"

definition runs_z :: "nat \<Rightarrow> nat \<Rightarrow> nat \<Rightarrow> real" where
  "runs_z n ones r =
     (let p = runs_pi n ones;
          q = rnd (1 - p);
          n2 = rnd (2 * rnd (real n));
          expRuns = rnd (rnd (n2 * p) * q);
          den = rnd (rnd (rnd (2 * rnd (sqrt n2)) * p) * q)
      in rnd (\<bar>rnd (real r - expRuns)\<bar> / den))"

text \<open>
  A buffer of 18 words with 336 one-bits among its 576 bits, in 280 runs.
\<close>

definition runs_buffer :: "u32 list" where
  "runs_buffer =
     [0xAAAAAAAA, 0xAAAAAAAA, 0xAAAAAAAA, 0xFFFFFFFF, 0xFFFFFFFF, 0xFFFFFFFF,
      0xCCCCCCCC, 0xCCCCCCCC, 0xCCCCCCCC, 0xCCCCCCCC, 0xCCCCCCCC, 0xCCCCCCCC,
      0xCCCCCCCC, 0xCCCCCCCC, 0xCCCCCCCC, 0xCCCCCCCC, 0xCCCCCCCC, 0xF0F0F0F0]"

section \<open>Basic facts\<close>

lemma bit_at_le1: "bit_at w i \<le> 1"
  unfolding bit_at_def
  by (metis unsigned_1 word_and_le1 word_le_nat_alt)

lemma size_mul32_small: "len < 2 ^ 59 \<Longrightarrow> size_mul32 len = 32 * len"
  by (simp add: size_mul32_def)

lemma fdiv_Some: "y \<noteq> 0 \<Longrightarrow> fdiv x y = Some (x / y)"
  by (simp add: fdiv_def)

section \<open>Binary64 rounding\<close>

text \<open>
  Rounding fixes the doubles, is monotone and odd, and moves a value in the normal range
  by at most a \<open>2^-53\<close>-th of itself.
\<close>

lemma round_even_of_int: "round_even (of_int k) = k"
  by (simp add: round_even_def)

lemma round_even_bounds: "x - 1 / 2 \<le> of_int (round_even x)" "of_int (round_even x) \<le> x + 1 / 2"
  unfolding round_even_def Let_def by (auto; linarith)+

lemma round_even_mono:
  assumes "x \<le> y"
  shows "round_even x \<le> round_even y"
proof (cases "\<lfloor>x\<rfloor> = \<lfloor>y\<rfloor>")
  case True
  then show ?thesis
    using assms unfolding round_even_def Let_def by auto
next
  case False
  then have "\<lfloor>x\<rfloor> + 1 \<le> \<lfloor>y\<rfloor>"
    using assms floor_mono[of x y] by linarith
  moreover have "round_even x \<le> \<lfloor>x\<rfloor> + 1" "\<lfloor>y\<rfloor> \<le> round_even y"
    unfolding round_even_def Let_def by auto
  ultimately show ?thesis by linarith
qed

lemma round_even_uminus: "round_even (- x) = - round_even x"
proof (cases "x \<in> \<int>")
  case True
  then obtain k where "x = of_int k" by (auto elim: Ints_cases)
  then show ?thesis
    using round_even_of_int[of k] round_even_of_int[of "- k"] by simp
next
  case False
  then have ne: "x \<noteq> of_int \<lfloor>x\<rfloor>"
    by (metis Ints_of_int)
  then have f: "\<lfloor>- x\<rfloor> = - \<lfloor>x\<rfloor> - 1"
    by (simp add: floor_minus ceiling_altdef)
  have rx: "0 < x - of_int \<lfloor>x\<rfloor>"
    using ne of_int_floor_le[of x] by linarith
  show ?thesis
    unfolding round_even_def Let_def f using rx by (auto; linarith?)
qed

lemma powr2_int: "(2 :: real) powr real_of_int k = 2 powi k"
  by (rule powr_real_of_int') simp_all

lemma powr2_int_Suc: "(2 :: real) powr (real_of_int k + 1) = 2 powi (k + 1)"
proof -
  have "(2 :: real) powr (real_of_int k + 1) = 2 powr real_of_int (k + 1)"
    by simp
  then show ?thesis
    by (simp only: powr2_int)
qed

lemma floor_log2_iff:
  assumes "0 < x"
  shows "\<lfloor>log 2 x\<rfloor> = k \<longleftrightarrow> 2 powi k \<le> x \<and> x < 2 powi (k + 1)"
  using floor_log_eq_powr_iff[of x 2 k] assms by (simp only: powr2_int powr2_int_Suc)

lemma floor_log2_bounds:
  assumes "0 < x"
  shows "2 powi \<lfloor>log 2 x\<rfloor> \<le> x" and "x < 2 powi (\<lfloor>log 2 x\<rfloor> + 1)"
  using floor_log2_iff[OF assms, of "\<lfloor>log 2 x\<rfloor>"] by blast+

lemma floor_log2_eq:
  assumes "0 < x" and "2 powi k \<le> x" and "x < 2 powi (k + 1)"
  shows "\<lfloor>log 2 x\<rfloor> = k"
  using floor_log2_iff[OF assms(1), of k] assms(2,3) by blast

lemma ulp_exp_uminus: "ulp_exp (- x) = ulp_exp x"
  by (simp add: ulp_exp_def)

lemma ulp_exp_abs: "ulp_exp \<bar>x\<bar> = ulp_exp x"
  by (simp add: ulp_exp_def)

lemma ulp_exp_ge: "- 1074 \<le> ulp_exp x"
  by (simp add: ulp_exp_def)

lemma ulp_exp_mono:
  assumes "0 < x" and "x \<le> y"
  shows "ulp_exp x \<le> ulp_exp y"
proof -
  have "log 2 x \<le> log 2 y"
    using assms by simp
  then have "\<lfloor>log 2 x\<rfloor> \<le> \<lfloor>log 2 y\<rfloor>"
    by (rule floor_mono)
  then show ?thesis
    using assms by (simp add: ulp_exp_def)
qed

lemma ulp_exp_below:
  assumes "x \<noteq> 0"
  shows "\<bar>x\<bar> < 2 powi (ulp_exp x + 53)"
proof -
  have "\<bar>x\<bar> < 2 powi (\<lfloor>log 2 \<bar>x\<bar>\<rfloor> + 1)"
    using floor_log2_bounds(2)[of "\<bar>x\<bar>"] assms by simp
  also have "\<dots> \<le> 2 powi (ulp_exp x + 53)"
    by (rule power_int_increasing) (simp_all add: ulp_exp_def)
  finally show ?thesis .
qed

lemma ulp_exp_above:
  assumes "x \<noteq> 0" and "- 1074 < ulp_exp x"
  shows "2 powi (ulp_exp x + 52) \<le> \<bar>x\<bar>"
proof -
  have "ulp_exp x = \<lfloor>log 2 \<bar>x\<bar>\<rfloor> - 52"
    using assms(2) by (simp add: ulp_exp_def max_def split: if_splits)
  then show ?thesis
    using floor_log2_bounds(1)[of "\<bar>x\<bar>"] assms(1) by simp
qed

lemma ulp_exp_eq:
  assumes "- 1074 \<le> e" and "2 powi (e + 52) \<le> \<bar>x\<bar>" and "\<bar>x\<bar> < 2 powi (e + 53)"
  shows "ulp_exp x = e"
proof -
  have "0 < \<bar>x\<bar>"
    using assms(2) zero_less_power_int[of "2 :: real" "e + 52"] by linarith
  moreover have "e + 52 + 1 = e + 53"
    by simp
  then have "\<bar>x\<bar> < 2 powi (e + 52 + 1)"
    using assms(3) by (simp only:)
  ultimately have "\<lfloor>log 2 \<bar>x\<bar>\<rfloor> = e + 52"
    using assms(2) by (intro floor_log2_eq)
  then show ?thesis
    using assms(1) by (simp add: ulp_exp_def)
qed

lemma ulp_exp_subnormal:
  assumes "x \<noteq> 0" and "\<bar>x\<bar> < 2 powi (- 1022)"
  shows "ulp_exp x = - 1074"
proof -
  have lt: "2 powi \<lfloor>log 2 \<bar>x\<bar>\<rfloor> < (2 :: real) powi (- 1022)"
    using floor_log2_bounds(1)[of "\<bar>x\<bar>"] assms by simp
  have "\<lfloor>log 2 \<bar>x\<bar>\<rfloor> < - 1022"
  proof (rule ccontr)
    assume "\<not> \<lfloor>log 2 \<bar>x\<bar>\<rfloor> < - 1022"
    then have "- 1022 \<le> \<lfloor>log 2 \<bar>x\<bar>\<rfloor>"
      by (simp only: not_less)
    then have "(2 :: real) powi (- 1022) \<le> 2 powi \<lfloor>log 2 \<bar>x\<bar>\<rfloor>"
      by (rule power_int_increasing) simp
    with lt show False
      by (meson leD)
  qed
  then show ?thesis
    unfolding ulp_exp_def by linarith
qed

lemma rnd_0: "rnd 0 = 0"
  by (simp add: rnd_def)

lemma rnd_uminus: "rnd (- x) = - rnd x"
  by (simp add: rnd_def ulp_exp_uminus round_even_uminus)

lemma rnd_nonneg:
  assumes "0 \<le> x"
  shows "0 \<le> rnd x"
proof -
  have "0 \<le> x / 2 powi ulp_exp x"
    using assms by simp
  then have "round_even 0 \<le> round_even (x / 2 powi ulp_exp x)"
    by (rule round_even_mono)
  then have "0 \<le> round_even (x / 2 powi ulp_exp x)"
    using round_even_of_int[of 0] by simp
  then show ?thesis
    by (simp add: rnd_def)
qed

lemma rnd_representable:
  assumes "\<bar>k\<bar> < 2 ^ 53" and "- 1074 \<le> e"
  shows "rnd (of_int k * 2 powi e) = of_int k * 2 powi e"
proof (cases "k = 0")
  case True
  then show ?thesis by (simp add: rnd_def)
next
  case False
  define x :: real where "x = of_int k * 2 powi e"
  define e' where "e' = ulp_exp x"
  have x0: "x \<noteq> 0"
    using False by (simp add: x_def)
  have "\<bar>x\<bar> = of_int \<bar>k\<bar> * 2 powi e"
    by (simp add: x_def abs_mult)
  also have "\<dots> < 2 ^ 53 * 2 powi e"
  proof (rule mult_strict_right_mono)
    show "real_of_int \<bar>k\<bar> < 2 ^ 53"
      using assms(1) by (metis of_int_less_iff of_int_numeral of_int_power)
  qed simp
  also have "\<dots> = 2 powi (e + 53)"
    by (simp add: power_int_add)
  finally have lt: "\<bar>x\<bar> < 2 powi (e + 53)" .
  have le: "e' \<le> e"
  proof (rule ccontr)
    assume "\<not> e' \<le> e"
    then have gt: "e < e'" by simp
    then have "- 1074 < ulp_exp x"
      using assms(2) by (simp add: e'_def)
    then have "2 powi (e' + 52) \<le> \<bar>x\<bar>"
      using ulp_exp_above[OF x0] by (simp add: e'_def)
    moreover have "(2 :: real) powi (e + 53) \<le> 2 powi (e' + 52)"
      by (rule power_int_increasing) (use gt in simp_all)
    ultimately show False
      using lt by linarith
  qed
  define d where "d = nat (e - e')"
  have e: "e = e' + int d"
    using le by (simp add: d_def)
  have "x / 2 powi e' = of_int k * 2 ^ d"
    by (simp add: x_def e power_int_add)
  also have "\<dots> = of_int (k * 2 ^ d)"
    by simp
  finally have "round_even (x / 2 powi e') = k * 2 ^ d"
    by (simp only: round_even_of_int)
  then have "rnd x = of_int (k * 2 ^ d) * 2 powi e'"
    using x0 by (simp add: rnd_def e'_def)
  also have "\<dots> = x"
    by (simp add: x_def e power_int_add)
  finally show ?thesis
    by (simp add: x_def)
qed

lemma rnd_pow2:
  assumes "- 1074 \<le> e"
  shows "rnd (2 powi e) = 2 powi e"
  using rnd_representable[of 1 e] assms by simp

lemma rnd_eval:
  assumes "- 1074 \<le> e" and "2 powi (e + 52) \<le> \<bar>x\<bar>" and "\<bar>x\<bar> < 2 powi (e + 53)"
  shows "rnd x = of_int (round_even (x / 2 powi e)) * 2 powi e"
proof -
  have "0 < \<bar>x\<bar>"
    using assms(2) zero_less_power_int[of "2 :: real" "e + 52"] by linarith
  then show ?thesis
    using ulp_exp_eq[OF assms] by (simp add: rnd_def)
qed

lemma rnd_mono_pos:
  assumes "0 < x" and "x \<le> y"
  shows "rnd x \<le> rnd y"
proof (cases "ulp_exp x = ulp_exp y")
  case True
  have "x / 2 powi ulp_exp y \<le> y / 2 powi ulp_exp y"
    using assms(2) by (simp add: divide_right_mono)
  then have "round_even (x / 2 powi ulp_exp y) \<le> round_even (y / 2 powi ulp_exp y)"
    by (rule round_even_mono)
  then have "real_of_int (round_even (x / 2 powi ulp_exp y)) * 2 powi ulp_exp y
      \<le> real_of_int (round_even (y / 2 powi ulp_exp y)) * 2 powi ulp_exp y"
    by (intro mult_right_mono) simp_all
  then show ?thesis
    using assms True by (simp add: rnd_def)
next
  case False
  define ex where "ex = ulp_exp x"
  define ey where "ey = ulp_exp y"
  define B :: real where "B = 2 powi (ey + 52)"
  have y0: "0 < y"
    using assms by linarith
  have lt: "ex < ey"
    using ulp_exp_mono[OF assms] False by (simp add: ex_def ey_def)
  then have "- 1074 < ulp_exp y"
    using ulp_exp_ge[of x] by (simp add: ex_def ey_def)
  then have By: "B \<le> y"
    using ulp_exp_above[of y] y0 by (simp add: B_def ey_def)
  define d where "d = nat (ey + 52 - ex)"
  have d: "ey + 52 = ex + int d"
    using lt by (simp add: d_def)
  have Bx: "B = of_int (2 ^ d) * 2 powi ex"
    by (simp add: B_def d power_int_add mult.commute)
  have "x < 2 powi (ex + 53)"
    using ulp_exp_below[of x] assms(1) by (simp add: ex_def)
  also have "\<dots> \<le> B"
    unfolding B_def by (rule power_int_increasing) (use lt in simp_all)
  finally have "x \<le> B"
    by simp
  then have "x / 2 powi ex \<le> B / 2 powi ex"
    by (simp add: divide_right_mono)
  also have "B / 2 powi ex = of_int (2 ^ d)"
    by (simp add: Bx)
  finally have "round_even (x / 2 powi ex) \<le> round_even (of_int (2 ^ d))"
    by (rule round_even_mono)
  then have "round_even (x / 2 powi ex) \<le> 2 ^ d"
    by (simp only: round_even_of_int)
  then have "real_of_int (round_even (x / 2 powi ex)) \<le> real_of_int (2 ^ d)"
    by (simp only: of_int_le_iff)
  then have "real_of_int (round_even (x / 2 powi ex)) * 2 powi ex \<le> real_of_int (2 ^ d) * 2 powi ex"
    by (intro mult_right_mono) simp_all
  then have 1: "rnd x \<le> B"
    using assms(1) by (simp add: rnd_def ex_def Bx)
  have By': "B = of_int (2 ^ 52) * 2 powi ey"
    by (simp add: B_def power_int_add mult.commute)
  have "B / 2 powi ey \<le> y / 2 powi ey"
    using By by (simp add: divide_right_mono)
  moreover have "B / 2 powi ey = of_int (2 ^ 52)"
    by (simp add: By')
  ultimately have "round_even (of_int (2 ^ 52)) \<le> round_even (y / 2 powi ey)"
    using round_even_mono by simp
  then have "2 ^ 52 \<le> round_even (y / 2 powi ey)"
    by (simp only: round_even_of_int)
  then have "real_of_int (2 ^ 52) \<le> real_of_int (round_even (y / 2 powi ey))"
    by (simp only: of_int_le_iff)
  then have "real_of_int (2 ^ 52) * 2 powi ey \<le> real_of_int (round_even (y / 2 powi ey)) * 2 powi ey"
    by (intro mult_right_mono) simp_all
  then have 2: "B \<le> rnd y"
    using y0 by (simp add: rnd_def ey_def By')
  from 1 2 show ?thesis
    by linarith
qed

lemma rnd_mono:
  assumes "x \<le> y"
  shows "rnd x \<le> rnd y"
proof -
  consider "0 < x" | "x \<le> 0" "0 \<le> y" | "y < 0"
    using assms by linarith
  then show ?thesis
  proof cases
    case 1
    then show ?thesis
      using assms by (rule rnd_mono_pos)
  next
    case 2
    have "rnd x \<le> 0"
      using rnd_nonneg[of "- x"] 2(1) by (simp add: rnd_uminus)
    then show ?thesis
      using rnd_nonneg[OF 2(2)] by linarith
  next
    case 3
    then have "rnd (- y) \<le> rnd (- x)"
      using assms by (intro rnd_mono_pos) simp_all
    then show ?thesis
      by (simp add: rnd_uminus)
  qed
qed

lemma rnd_le:
  assumes "x \<le> of_int k * 2 powi e" and "\<bar>k\<bar> < 2 ^ 53" and "- 1074 \<le> e"
  shows "rnd x \<le> of_int k * 2 powi e"
  using rnd_mono[OF assms(1)] rnd_representable[OF assms(2,3)] by simp

lemma rnd_ge:
  assumes "of_int k * 2 powi e \<le> x" and "\<bar>k\<bar> < 2 ^ 53" and "- 1074 \<le> e"
  shows "of_int k * 2 powi e \<le> rnd x"
  using rnd_mono[OF assms(1)] rnd_representable[OF assms(2,3)] by simp

lemma rnd_eq_0_D:
  assumes "rnd x = 0"
  shows "\<bar>x\<bar> < 2 powi (- 1074)"
proof (rule ccontr)
  assume "\<not> \<bar>x\<bar> < 2 powi (- 1074)"
  then have "2 powi (- 1074) \<le> \<bar>x\<bar>"
    by (simp only: not_less)
  then have "rnd (2 powi (- 1074)) \<le> rnd \<bar>x\<bar>"
    by (rule rnd_mono)
  moreover have "rnd \<bar>x\<bar> = \<bar>rnd x\<bar>"
    using rnd_nonneg[of x] rnd_nonneg[of "- x"] by (cases "0 \<le> x") (simp_all add: rnd_uminus abs_if)
  moreover have "rnd (2 powi (- 1074)) = 2 powi (- 1074)"
    by (rule rnd_pow2) simp
  moreover have "(0 :: real) < 2 powi (- 1074)"
    by (rule zero_less_power_int) simp
  ultimately show False
    using assms by (simp only: abs_zero)
qed

lemma rnd_abs: "rnd \<bar>x\<bar> = \<bar>rnd x\<bar>"
  using rnd_nonneg[of x] rnd_nonneg[of "- x"] by (cases "0 \<le> x") (simp_all add: rnd_uminus abs_if)

lemma rnd_int:
  assumes "\<bar>k\<bar> < 2 ^ 53"
  shows "rnd (of_int k) = of_int k"
  using rnd_representable[OF assms, of 0] by simp

lemma rnd_nat:
  assumes "k < 2 ^ 53"
  shows "rnd (real k) = real k"
proof -
  have "\<bar>int k\<bar> < 2 ^ 53"
    using assms by (simp add: zless_nat_eq_int_zless[symmetric] nat_power_eq)
  from rnd_int[OF this] show ?thesis
    by simp
qed

lemma rnd_error:
  assumes "x \<noteq> 0"
  shows "\<bar>rnd x - x\<bar> \<le> 2 powi ulp_exp x / 2"
proof -
  define q :: real where "q = 2 powi ulp_exp x"
  have q: "0 < q"
    by (simp add: q_def)
  have "rnd x - x = (of_int (round_even (x / q)) - x / q) * q"
    using assms q by (simp add: rnd_def q_def field_simps)
  moreover have "\<bar>of_int (round_even (x / q)) - x / q\<bar> \<le> 1 / 2"
    using round_even_bounds[of "x / q"] by linarith
  ultimately have "\<bar>rnd x - x\<bar> \<le> 1 / 2 * q"
    using q by (simp add: abs_mult mult_right_mono)
  then show ?thesis
    by (simp add: q_def)
qed

lemma rnd_rel_error:
  assumes "2 powi (- 1022) \<le> \<bar>x\<bar>"
  shows "\<bar>rnd x - x\<bar> \<le> \<bar>x\<bar> / 2 ^ 53"
proof -
  have pos: "(0 :: real) < 2 powi (- 1022)"
    by (rule zero_less_power_int) simp
  then have x0: "x \<noteq> 0"
    using assms by auto
  have "- 1022 \<le> \<lfloor>log 2 \<bar>x\<bar>\<rfloor>"
  proof (rule ccontr)
    assume "\<not> - 1022 \<le> \<lfloor>log 2 \<bar>x\<bar>\<rfloor>"
    then have "\<lfloor>log 2 \<bar>x\<bar>\<rfloor> + 1 \<le> - 1022"
      by linarith
    then have "(2 :: real) powi (\<lfloor>log 2 \<bar>x\<bar>\<rfloor> + 1) \<le> 2 powi (- 1022)"
      by (rule power_int_increasing) simp
    moreover have "\<bar>x\<bar> < 2 powi (\<lfloor>log 2 \<bar>x\<bar>\<rfloor> + 1)"
      using floor_log2_bounds(2)[of "\<bar>x\<bar>"] x0 by simp
    ultimately show False
      using assms by (meson leD le_less_trans less_le_trans)
  qed
  then have e: "ulp_exp x = \<lfloor>log 2 \<bar>x\<bar>\<rfloor> - 52"
    unfolding ulp_exp_def by linarith
  have "2 powi (ulp_exp x + 52) \<le> \<bar>x\<bar>"
    using floor_log2_bounds(1)[of "\<bar>x\<bar>"] x0 by (simp add: e)
  moreover have "(2 :: real) powi (ulp_exp x + 52) = 2 powi ulp_exp x * 2 ^ 52"
    by (simp add: power_int_add)
  ultimately have "2 powi ulp_exp x / 2 \<le> \<bar>x\<bar> / 2 ^ 53"
    by (simp add: field_simps)
  with rnd_error[OF x0] show ?thesis
    by linarith
qed

lemma rnd_form:
  assumes "x \<noteq> 0"
  shows "\<bar>round_even (x / 2 powi ulp_exp x)\<bar> \<le> 2 ^ 53"
proof -
  define q :: real where "q = 2 powi ulp_exp x"
  have q: "0 < q"
    by (simp add: q_def)
  have "\<bar>x\<bar> < 2 powi (ulp_exp x + 53)"
    using ulp_exp_below[OF assms] .
  also have "\<dots> = 2 ^ 53 * q"
    by (simp add: q_def power_int_add mult.commute)
  finally have "\<bar>x / q\<bar> \<le> 2 ^ 53"
    using q by (simp add: field_simps)
  then have "x / q \<le> 2 ^ 53" "- (2 ^ 53) \<le> x / q"
    by linarith+
  then have "x / q \<le> of_int (2 ^ 53)" "of_int (- (2 ^ 53)) \<le> x / q"
    by simp_all
  then have "round_even (x / q) \<le> round_even (of_int (2 ^ 53))"
    "round_even (of_int (- (2 ^ 53))) \<le> round_even (x / q)"
    by (simp_all only: round_even_mono)
  then have "round_even (x / q) \<le> 2 ^ 53" "- (2 ^ 53) \<le> round_even (x / q)"
    by (simp_all only: round_even_of_int)
  then show ?thesis
    unfolding q_def by linarith
qed

lemma rnd_idem: "rnd (rnd x) = rnd x"
proof (cases "x = 0")
  case True
  then show ?thesis by (simp add: rnd_def)
next
  case False
  define k where "k = round_even (x / 2 powi ulp_exp x)"
  define e where "e = ulp_exp x"
  have r: "rnd x = of_int k * 2 powi e"
    using False by (simp add: rnd_def k_def e_def)
  have e: "- 1074 \<le> e"
    by (simp add: e_def ulp_exp_ge)
  have k: "\<bar>k\<bar> \<le> 2 ^ 53"
    using rnd_form[OF False] by (simp add: k_def)
  show ?thesis
  proof (cases "\<bar>k\<bar> < 2 ^ 53")
    case True
    from rnd_representable[OF this e] show ?thesis
      by (simp add: r)
  next
    case False
    then have "\<bar>k\<bar> = 2 ^ 53"
      using k by linarith
    then consider "k = 2 ^ 53" | "k = - (2 ^ 53)"
      by linarith
    then have "rnd x = of_int (k div 2) * 2 powi (e + 1) \<and> \<bar>k div 2\<bar> < 2 ^ 53"
      by cases (simp_all add: r power_int_add)
    then have "rnd x = of_int (k div 2) * 2 powi (e + 1)" and "\<bar>k div 2\<bar> < 2 ^ 53"
      by simp_all
    moreover have "- 1074 \<le> e + 1"
      using e by simp
    ultimately show ?thesis
      using rnd_representable[of "k div 2" "e + 1"] by simp
  qed
qed

lemma rnd_ge_pow2:
  assumes "2 powi e \<le> x" and "- 1074 \<le> e"
  shows "2 powi e \<le> rnd x"
  using rnd_mono[OF assms(1)] rnd_pow2[OF assms(2)] by simp

lemma rnd_le_pow2:
  assumes "x \<le> 2 powi e" and "- 1074 \<le> e"
  shows "rnd x \<le> 2 powi e"
  using rnd_mono[OF assms(1)] rnd_pow2[OF assms(2)] by simp

lemma dbl_Some:
  assumes "\<bar>x\<bar> \<le> 2 powi e" and "- 1074 \<le> e" and "e < 1024"
  shows "dbl x = Some (rnd x)"
proof -
  have "rnd \<bar>x\<bar> \<le> rnd (2 powi e)"
    using assms(1) by (rule rnd_mono)
  then have "\<bar>rnd x\<bar> \<le> 2 powi e"
    using rnd_pow2[OF assms(2)] by (simp add: rnd_abs)
  also have "(2 :: real) powi e < 2 powi 1024"
    by (rule power_int_strict_increasing) (use assms(3) in simp_all)
  finally show ?thesis
    by (simp add: dbl_def)
qed


lemma dbl_Some_nonneg:
  assumes "0 \<le> x" and "x \<le> 2 powi e" and "- 1074 \<le> e" and "e < 1024"
  shows "dbl x = Some (rnd x)"
  using dbl_Some[of x e] assms by simp

section \<open>The complementary error function\<close>

text \<open>
  The series converges everywhere, its sum has the derivative \<open>exp (- x^2)\<close> and is
  therefore monotone; with a partial sum at 2 and a bound on \<open>pi\<close> this gives
  \<open>erfc_real x < 0.01\<close> from 2 on.
\<close>

lemma erf_series_terms: "erf_series x = (\<Sum>n. erf_term x n)"
  by (simp add: erf_series_def erf_term_def)

lemma summable_erf_term: "summable (erf_term x)"
proof (rule summable_comparison_test)
  show "summable (\<lambda>n. \<bar>x\<bar> * (inverse (fact n) * (x\<^sup>2) ^ n))"
    by (intro summable_mult summable_exp)
  show "\<exists>N. \<forall>n\<ge>N. norm (erf_term x n) \<le> \<bar>x\<bar> * (inverse (fact n) * (x\<^sup>2) ^ n)"
  proof (intro exI allI impI)
    fix n :: nat
    have "(x\<^sup>2) ^ n = \<bar>x\<bar> ^ (2 * n)"
      by (simp add: power_mult)
    then have "\<bar>x\<bar> ^ (2 * n + 1) = \<bar>x\<bar> * (x\<^sup>2) ^ n"
      by simp
    then have "norm (erf_term x n) = \<bar>x\<bar> * (inverse (fact n) * (x\<^sup>2) ^ n) / real (2 * n + 1)"
      unfolding erf_term_def real_norm_def abs_mult abs_divide power_abs
      by (simp add: field_simps)
    also have "\<dots> \<le> \<bar>x\<bar> * (inverse (fact n) * (x\<^sup>2) ^ n) / 1"
      by (intro divide_left_mono mult_nonneg_nonneg) simp_all
    finally show "norm (erf_term x n) \<le> \<bar>x\<bar> * (inverse (fact n) * (x\<^sup>2) ^ n)"
      by simp
  qed
qed

lemma erf_coeff_power: "erf_coeff m * x ^ m = (if even m then 0 else erf_term x ((m - 1) div 2))"
proof (cases "even m")
  case True
  then show ?thesis by (simp add: erf_coeff_def)
next
  case False
  then have "2 * ((m - 1) div 2) + 1 = m" by presburger
  with False show ?thesis by (simp add: erf_coeff_def erf_term_def)
qed

lemma erf_power_series: "(\<lambda>m. erf_coeff m * x ^ m) sums erf_series x"
proof -
  have "erf_term x sums erf_series x"
    unfolding erf_series_terms by (rule summable_sums) (rule summable_erf_term)
  then have "(\<lambda>m. if even m then 0 else erf_term x ((m - 1) div 2)) sums erf_series x"
    by (rule sums_if')
  then show ?thesis by (simp add: erf_coeff_power)
qed

lemma erf_series_eq: "erf_series = (\<lambda>x. \<Sum>m. erf_coeff m * x ^ m)"
  using erf_power_series by (auto simp add: sums_iff)

lemma diffs_erf_coeff:
  "diffs erf_coeff m * x ^ m = (if even m then inverse (fact (m div 2)) * (- (x\<^sup>2)) ^ (m div 2) else 0)"
proof (cases "even m")
  case True
  then obtain k where k: "m = 2 * k" by (elim evenE)
  have "real (Suc (2 * k)) * ((- 1) ^ k / (fact k * real (Suc (2 * k)))) = (- 1) ^ k / fact k"
    by simp
  then have c: "diffs erf_coeff (2 * k) = (- 1) ^ k * inverse (fact k)"
    by (simp add: diffs_def erf_coeff_def divide_inverse)
  have "(- (x\<^sup>2)) ^ k = (- 1) ^ k * x ^ (2 * k)"
    by (subst power_minus) (simp add: power_mult)
  with c show ?thesis
    by (simp add: k)
next
  case False
  then show ?thesis by (simp add: diffs_def erf_coeff_def)
qed

lemma diffs_erf_sums: "(\<lambda>m. diffs erf_coeff m * x ^ m) sums exp (- (x\<^sup>2))"
proof -
  have "(\<lambda>n. inverse (fact n) * (- (x\<^sup>2)) ^ n) sums exp (- (x\<^sup>2))"
    using exp_converges [of "- (x\<^sup>2)"] by (simp add: field_simps)
  from sums_if [OF sums_zero this]
  have "(\<lambda>m. if even m then inverse (fact (m div 2)) * (- (x\<^sup>2)) ^ (m div 2) else 0)
      sums exp (- (x\<^sup>2))"
    by simp
  then show ?thesis by (simp add: diffs_erf_coeff)
qed

lemma DERIV_erf_series: "DERIV erf_series x :> exp (- (x\<^sup>2))"
proof -
  have "((\<lambda>x. \<Sum>m. erf_coeff m * x ^ m) has_field_derivative (\<Sum>m. diffs erf_coeff m * x ^ m)) (at x)"
    by (rule termdiffs_strong_converges_everywhere) (use erf_power_series sums_summable in blast)
  moreover have "(\<Sum>m. diffs erf_coeff m * x ^ m) = exp (- (x\<^sup>2))"
    using diffs_erf_sums by (rule sums_unique [symmetric])
  ultimately show ?thesis by (simp add: erf_series_eq)
qed

lemma erf_series_mono:
  assumes "a \<le> b"
  shows "erf_series a \<le> erf_series b"
  using assms
proof (rule DERIV_nonneg_imp_nondecreasing)
  fix x
  show "\<exists>y. DERIV erf_series x :> y \<and> 0 \<le> y"
    using DERIV_erf_series [of x] by (intro exI [of _ "exp (- (x\<^sup>2))"]) simp
qed


lemma erf_series_0: "erf_series 0 = 0"
  by (simp add: erf_series_def)

lemma erfc_real_0: "erfc_real 0 = 1"
  by (simp add: erfc_real_def erf_series_0)

lemma arctan_le_self:
  assumes "0 \<le> x"
  shows "arctan x \<le> x"
proof -
  have "0 - arctan 0 \<le> x - arctan x"
    using assms
  proof (rule DERIV_nonneg_imp_nondecreasing)
    fix t :: real
    have "DERIV (\<lambda>t. t - arctan t) t :> 1 - inverse (1 + t\<^sup>2)"
      by (auto intro!: derivative_eq_intros)
    moreover have "inverse (1 + t\<^sup>2) \<le> 1"
      by (intro inverse_le_1_iff [THEN iffD2] disjI2) simp
    ultimately show "\<exists>y. DERIV (\<lambda>t. t - arctan t) t :> y \<and> 0 \<le> y"
      by (intro exI [of _ "1 - inverse (1 + t\<^sup>2)"]) simp
  qed
  then show ?thesis by simp
qed

lemma pi_upper: "pi < 3.1684"
proof -
  have "pi / 4 = 5 * arctan (1 / 7) + 2 * arctan (3 / 79)"
    by (rule machin_Euler [symmetric])
  also have "\<dots> \<le> 5 * (1 / 7) + 2 * (3 / 79)"
    by (intro add_mono mult_left_mono arctan_le_self) simp_all
  finally show ?thesis by simp
qed

lemma erf_term_pair:
  assumes "even k" and "2 \<le> k"
  shows "0 \<le> erf_term 2 k + erf_term 2 (Suc k)"
proof -
  define A :: real where "A = 2 ^ (2 * k + 1)"
  define F :: real where "F = fact k"
  define a b c :: real where "a = real (2 * k + 1)" and "b = real (Suc k)" and "c = real (2 * k + 3)"
  have pos: "0 < A" "0 < F" "0 < a" "0 < b" "0 < c"
    by (simp_all add: A_def F_def a_def b_def c_def)
  have t: "erf_term 2 k = A / (F * a)"
    using assms(1) by (simp add: erf_term_def A_def F_def a_def)
  have "2 ^ (2 * Suc k + 1) = 4 * A" "fact (Suc k) = b * F" "real (2 * Suc k + 1) = c"
    by (simp_all add: A_def F_def b_def c_def)
  then have t': "erf_term 2 (Suc k) = - (4 * A / (b * F * c))"
    unfolding erf_term_def using assms(1) by simp
  have "4 * A / (b * F * c) = A / (F * a) * (4 * a / (b * c))"
    using pos by (simp add: field_simps)
  then have "erf_term 2 k + erf_term 2 (Suc k) = A / (F * a) * (1 - 4 * a / (b * c))"
    unfolding t t' by (simp add: algebra_simps)
  moreover have "0 \<le> A / (F * a)"
    using pos by simp
  moreover have "4 * a / (b * c) \<le> 1"
  proof -
    have "4 * (2 * k + 1) \<le> Suc k * (2 * k + 3)"
    proof -
      define X where "X = k * k"
      have "2 * k \<le> X" unfolding X_def using assms(2) by (rule mult_le_mono1)
      then have "4 * (2 * k + 1) \<le> 2 * X + 5 * k + 3"
        using assms(2) by arith
      moreover have "Suc k * (2 * k + 3) = 2 * X + 5 * k + 3"
        by (simp add: algebra_simps X_def)
      ultimately show ?thesis by (simp only:)
    qed
    then have "real (4 * (2 * k + 1)) \<le> real (Suc k * (2 * k + 3))"
      by (rule of_nat_mono)
    then have "4 * a \<le> b * c"
      unfolding a_def b_def c_def by (simp only: of_nat_mult of_nat_numeral)
    then show ?thesis using pos by simp
  qed
  ultimately show ?thesis
    by (simp only: mult_nonneg_nonneg diff_ge_0_iff_ge)
qed

lemma erf_series_2_lower: "(\<Sum>n<14. erf_term 2 n) \<le> erf_series 2"
proof -
  let ?f = "\<lambda>n. erf_term 2 (n + 14)"
  have sm: "summable ?f"
    using summable_erf_term [of 2] by (simp only: summable_iff_shift)
  then have "(\<lambda>n. sum ?f {n * 2..<n * 2 + 2}) sums suminf ?f"
    by (intro sums_group summable_sums) simp_all
  moreover have "0 \<le> sum ?f {n * 2..<n * 2 + 2}" for n
  proof -
    have "{n * 2..<n * 2 + 2} = {n * 2, Suc (n * 2)}" by auto
    then have "sum ?f {n * 2..<n * 2 + 2} = erf_term 2 (n * 2 + 14) + erf_term 2 (Suc (n * 2 + 14))"
      by simp
    also have "0 \<le> \<dots>"
      by (rule erf_term_pair) simp_all
    finally show ?thesis .
  qed
  ultimately have "0 \<le> suminf ?f"
  proof -
    assume g: "(\<lambda>n. sum ?f {n * 2..<n * 2 + 2}) sums suminf ?f"
      and p: "\<And>n. 0 \<le> sum ?f {n * 2..<n * 2 + 2}"
    from g have "summable (\<lambda>n. sum ?f {n * 2..<n * 2 + 2})"
      by (rule sums_summable)
    then have "0 \<le> (\<Sum>n. sum ?f {n * 2..<n * 2 + 2})"
      using p by (rule suminf_nonneg)
    also have "(\<Sum>n. sum ?f {n * 2..<n * 2 + 2}) = suminf ?f"
      using g by (rule sums_unique [symmetric])
    finally show ?thesis .
  qed
  moreover have "erf_series 2 = suminf ?f + (\<Sum>n<14. erf_term 2 n)"
    unfolding erf_series_terms
    by (rule suminf_split_initial_segment) (rule summable_erf_term)
  ultimately show ?thesis by simp
qed

lemma sum_14: "(\<Sum>n::nat<14. f n) = (f 0 + f 1 + f 2 + f 3 + f 4 + f 5 + f 6 + f 7 + f 8 + f 9 + f 10 + f 11 + f 12 + f 13 :: real)"
  by (simp add: eval_nat_numeral)

lemma erf_term_values:
  "erf_term 2 0 = 2"
  "erf_term 2 1 = - (8 / 3)"
  "erf_term 2 2 = 16 / 5"
  "erf_term 2 3 = - (64 / 21)"
  "erf_term 2 4 = 64 / 27"
  "erf_term 2 5 = - (256 / 165)"
  "erf_term 2 6 = 512 / 585"
  "erf_term 2 7 = - (2048 / 4725)"
  "erf_term 2 8 = 1024 / 5355"
  "erf_term 2 9 = - (4096 / 53865)"
  "erf_term 2 10 = 8192 / 297675"
  "erf_term 2 11 = - (32768 / 3586275)"
  "erf_term 2 12 = 32768 / 11694375"
  "erf_term 2 13 = - (131072 / 164189025)"
  by (simp_all add: erf_term_def fact_numeral)

lemma erf_partial_sum: "(0.8819 :: real) \<le> (\<Sum>n<14. erf_term 2 n)"
  unfolding sum_14 erf_term_values by simp

lemma erfc_real_small:
  assumes "2 \<le> x"
  shows "erfc_real x < 0.01"
proof -
  have "0.8819 \<le> erf_series 2"
    using erf_partial_sum erf_series_2_lower by (rule order_trans)
  also have "erf_series 2 \<le> erf_series x"
    using assms by (rule erf_series_mono)
  finally have e: "0.8819 \<le> erf_series x" .
  have "sqrt pi < 1.78"
    using pi_upper by (intro real_less_lsqrt) (simp_all add: power2_eq_square)
  moreover have "0 < sqrt pi" by simp
  ultimately have "2 / 1.78 < 2 / sqrt pi"
    by (intro divide_strict_left_mono) simp_all
  then have "2 / 1.78 * 0.8819 < 2 / sqrt pi * 0.8819"
    by (rule mult_strict_right_mono) simp
  also have "2 / sqrt pi * 0.8819 \<le> 2 / sqrt pi * erf_series x"
    using e by (intro mult_left_mono) simp_all
  finally have "0.99 < 2 / sqrt pi * erf_series x"
    by simp
  then show ?thesis by (simp add: erfc_real_def)
qed


lemma erf_series_minus: "erf_series (- x) = - erf_series x"
proof -
  have "erf_term (- x) = (\<lambda>n. - erf_term x n)"
    by (simp add: erf_term_def fun_eq_iff)
  then show ?thesis
    unfolding erf_series_terms by (simp add: suminf_minus summable_erf_term)
qed

lemma erfc_real_minus: "erfc_real (- x) = 2 - erfc_real x"
  by (simp add: erfc_real_def erf_series_minus)

section \<open>Cumulative sums: the excursion\<close>

lemma cusum_walk_Suc: "cusum_walk w (Suc n) = cusum_step w n (cusum_walk w n)"
  by (simp add: cusum_walk_def)

lemma cusum_walk_0: "cusum_walk w 0 = (0, 0)"
  by (simp add: cusum_walk_def)

lemma prefix_sum_Suc:
  "prefix_sum w (Suc j) = prefix_sum w j + (if bit_at w j \<noteq> 0 then 1 else - 1)"
  by (simp add: prefix_sum_def)

lemma cusum_step_max:
  "0 \<le> m \<Longrightarrow>
   cusum_step w i (s, m) =
     (s + (if bit_at w i \<noteq> 0 then 1 else - 1),
      max \<bar>s + (if bit_at w i \<noteq> 0 then 1 else - 1)\<bar> m)"
  by (auto simp add: cusum_step_def Let_def max_def)

text \<open>
  The first loop leaves the running sum in \<open>s\<close> and the largest absolute value of a
  prefix sum in \<open>zmax\<close>.
\<close>

lemma cusum_walk_eq:
  "cusum_walk w n = (prefix_sum w n, Max ((\<lambda>j. \<bar>prefix_sum w j\<bar>) ` {0..n}))"
proof (induction n)
  case 0
  show ?case by (simp add: cusum_walk_0 prefix_sum_def)
next
  case (Suc n)
  let ?f = "\<lambda>j. \<bar>prefix_sum w j\<bar>"
  let ?m = "Max (?f ` {0..n})"
  have "?f 0 \<le> ?m" by (intro Max_ge) auto
  then have m0: "0 \<le> ?m" by (simp add: prefix_sum_def)
  have split: "?f ` {0..Suc n} = insert (?f (Suc n)) (?f ` {0..n})"
    by (simp add: atLeast0_atMost_Suc)
  have mx: "Max (?f ` {0..Suc n}) = max (?f (Suc n)) ?m"
    unfolding split by (rule Max_insert) simp_all
  show ?case
    unfolding cusum_walk_Suc Suc.IH mx cusum_step_max [OF m0] prefix_sum_Suc ..
qed

lemma prefix_sum_abs_le: "\<bar>prefix_sum w j\<bar> \<le> int j"
proof (induction j)
  case 0
  show ?case by (simp add: prefix_sum_def)
next
  case (Suc j)
  then show ?case
    unfolding prefix_sum_Suc by (cases "bit_at w j \<noteq> 0") simp_all
qed

lemma cusum_zmax_ge1:
  assumes "1 \<le> n"
  shows "1 \<le> snd (cusum_walk w n)"
proof -
  have "\<bar>prefix_sum w 1\<bar> = 1"
    by (simp add: prefix_sum_def)
  moreover have "\<bar>prefix_sum w 1\<bar> \<le> Max ((\<lambda>j. \<bar>prefix_sum w j\<bar>) ` {0..n})"
    using assms by (intro Max_ge) auto
  ultimately show ?thesis
    by (simp add: cusum_walk_eq)
qed

lemma cusum_zmax_le: "snd (cusum_walk w n) \<le> int n"
proof -
  have "Max ((\<lambda>j. \<bar>prefix_sum w j\<bar>) ` {0..n}) \<le> int n"
  proof (rule Max.boundedI)
    fix a
    assume "a \<in> (\<lambda>j. \<bar>prefix_sum w j\<bar>) ` {0..n}"
    then obtain j where "j \<le> n" "a = \<bar>prefix_sum w j\<bar>"
      by auto
    then show "a \<le> int n"
      using prefix_sum_abs_le [of w j] by linarith
  qed simp_all
  then show ?thesis
    by (simp add: cusum_walk_eq)
qed

lemma cusum_sum_abs_le: "\<bar>fst (cusum_walk w n)\<bar> \<le> int n"
  by (simp add: cusum_walk_eq prefix_sum_abs_le)

text \<open>
  Claim C10. For a buffer of \<open>len \<ge> 1\<close> words whose bit count \<open>32 * len\<close> fits the
  signed 64-bit counters, the excursion \<open>zmax\<close> left by the first loop of
  \<open>nist_cumulative_sums\<close> is at least 1 (and at most the bit count, so the counters do
  not overflow): the \<open>zmax == 0\<close> branch is not taken, and the division of the bit
  count by \<open>zmax\<close> has a nonzero divisor.
\<close>

theorem cusum_zmax_positive:
  assumes "1 \<le> len" and "len \<le> length w" and "32 * len < 2 ^ 63"
  shows "1 \<le> cusum_zmax w len \<and> cusum_zmax w len \<le> 32 * int len
     \<and> fdiv (real (size_mul32 len)) (real_of_int (cusum_zmax w len))
         = Some (real (32 * len) / real_of_int (cusum_zmax w len))"
proof -
  have n: "size_mul32 len = 32 * len"
    using assms(3) by (simp add: size_mul32_def)
  have "1 \<le> cusum_zmax w len"
    unfolding cusum_zmax_def n using assms(1) by (intro cusum_zmax_ge1) simp
  moreover have "cusum_zmax w len \<le> 32 * int len"
    unfolding cusum_zmax_def n using cusum_zmax_le [of w "32 * len"] by simp
  ultimately show ?thesis
    by (simp add: fdiv_def n)
qed

theorem cusum_zmax_positive_witness:
  "1 \<le> cusum_zmax [0x0000FFFF] 1 \<and> cusum_zmax [0x0000FFFF] 1 \<le> 32 * int 1
     \<and> fdiv (real (size_mul32 1)) (real_of_int (cusum_zmax [0x0000FFFF] 1))
         = Some (real (32 * 1) / real_of_int (cusum_zmax [0x0000FFFF] 1))"
  using cusum_zmax_positive [of 1 "[0x0000FFFF]"] by simp

section \<open>Block frequency: too few blocks\<close>

text \<open>
  Claim C2. For every block size \<open>M \<ge> 1\<close>, if the number of complete blocks
  \<open>\<lfloor>32 * len / M\<rfloor>\<close> is below 20, \<open>nist_block_frequency\<close> returns the fail verdict 0,
  whatever the buffer holds (also when \<^verbatim>\<open>len * 32\<close> wraps in \<^verbatim>\<open>size_t\<close>: the wrapped bit
  count is no larger).
\<close>

theorem block_frequency_too_few_blocks:
  assumes "1 \<le> M" and "(32 * len) div M < 20"
  shows "nist_block_frequency erfc w len M = Some 0"
proof -
  have "size_mul32 len \<le> 32 * len"
    by (simp add: size_mul32_def mult.commute)
  then have "size_mul32 len div M \<le> (32 * len) div M"
    by (rule div_le_mono)
  with assms show ?thesis
    by (simp add: nist_block_frequency_def Let_def)
qed

theorem block_frequency_too_few_blocks_witness:
  "nist_block_frequency erfc_real [0xFFFFFFFF, 0] 2 8 = Some 0"
  using block_frequency_too_few_blocks [of 8 2 erfc_real "[0xFFFFFFFF, 0]"] by simp

section \<open>Summary statistics\<close>

text \<open>
  Claim C5. \<open>coeff_var m sd\<close> always has a value: it is 0 when \<open>m = 0\<close> and \<open>sd / m\<close>
  otherwise; the division is never reached with a zero divisor.
\<close>

theorem coeff_var_total:
  "coeff_var m sd = Some (if m = 0 then 0 else sd / m)"
  by (simp add: coeff_var_def fdiv_def)

lemma sum64_Suc: "sum64 data (Suc k) = sum64 data k + ucast (data ! k)"
  by (simp add: sum64_def)

lemma unat_u32_less: "unat (x :: u32) < 2 ^ 32"
  using unsigned_less [of x, where ?'a = nat] by simp

lemma sum_unat_bound: "(\<Sum>i<k. unat (data ! i :: u32)) \<le> k * (2 ^ 32 - 1)"
proof -
  have "(\<Sum>i<k. unat (data ! i)) \<le> (\<Sum>i<k. 2 ^ 32 - 1)"
    by (rule sum_mono) (use unat_u32_less in \<open>simp add: less_Suc_eq_le [symmetric]\<close>)
  then show ?thesis by simp
qed

lemma sum64_exact:
  "k \<le> 2 ^ 32 \<Longrightarrow> unat (sum64 data k) = (\<Sum>i<k. unat (data ! i))"
proof (induction k)
  case 0
  show ?case by (simp add: sum64_def)
next
  case (Suc k)
  have b: "(\<Sum>i<Suc k. unat (data ! i)) \<le> Suc k * (2 ^ 32 - 1)"
    by (rule sum_unat_bound)
  have "Suc k * (2 ^ 32 - 1) \<le> 2 ^ 32 * (2 ^ 32 - 1 :: nat)"
    using Suc.prems by (intro mult_le_mono1) 
  then have lt: "(\<Sum>i<Suc k. unat (data ! i)) < 2 ^ 64"
    using b by simp
  have "unat (ucast (data ! k) :: 64 word) = unat (data ! k)"
    using unat_u32_less [of "data ! k"]
    by (simp add: unsigned_ucast_eq take_bit_nat_eq_self)
  then have "unat (sum64 data (Suc k)) = (unat (sum64 data k) + unat (data ! k)) mod 2 ^ 64"
    by (simp add: sum64_Suc unat_word_ariths)
  also have "\<dots> = (\<Sum>i<Suc k. unat (data ! i)) mod 2 ^ 64"
    using Suc by simp
  also have "\<dots> = (\<Sum>i<Suc k. unat (data ! i))"
    using lt by simp
  finally show ?case .
qed

text \<open>The value of \<open>mean\<close>, from the exact sum \<open>S\<close> of the samples.\<close>

lemma mean_of_sum:
  assumes "1 \<le> n" and "n < 2 ^ 31" and "nat n \<le> length data"
    and "unat (sum64 data (nat n)) = S" and "S \<le> nat n * (2 ^ 32 - 1)"
  shows "mean data n = Some (rnd (rnd (real S) / real_of_int n))"
    and "0 \<le> rnd (rnd (real S) / real_of_int n)"
    and "rnd (rnd (real S) / real_of_int n) < 2 ^ 32"
    and "\<bar>rnd (rnd (real S) / real_of_int n) - real S / real_of_int n\<bar>
           \<le> real S / real_of_int n / 2 ^ 51"
proof -
  define N where "N = real_of_int n"
  define s where "s = rnd (real S)"
  define q where "q = s / N"
  define x where "x = real S / N"
  have N: "1 \<le> N" "N \<le> 2 ^ 31"
    using assms(1,2) by (simp_all add: N_def)
  have "real S \<le> real (nat n * (2 ^ 32 - 1))"
    using assms(5) by (rule of_nat_mono)
  also have "\<dots> = N * (2 ^ 32 - 1)"
    using assms(1) by (simp add: N_def)
  finally have S: "real S \<le> N * (2 ^ 32 - 1)" .
  then have x: "0 \<le> x" "x \<le> 2 ^ 32 - 1"
    using N by (simp_all add: x_def field_simps)
  have s0: "0 \<le> s"
    unfolding s_def by (rule rnd_nonneg) simp
  have small: "(2 :: real) powi (- 1022) \<le> 2 powi (- 31)"
    by (rule power_int_increasing) simp_all
  have serr: "\<bar>s - real S\<bar> \<le> real S / 2 ^ 53"
  proof (cases "S = 0")
    case True
    then show ?thesis by (simp add: s_def rnd_0)
  next
    case False
    then have "1 \<le> real S"
      by simp
    moreover have "(2 :: real) powi (- 31) \<le> 2 powi 0"
      by (rule power_int_increasing) simp_all
    ultimately have "2 powi (- 1022) \<le> \<bar>real S\<bar>"
      using small by simp
    from rnd_rel_error[OF this] show ?thesis
      by (simp add: s_def)
  qed
  then have "\<bar>s - real S\<bar> / N \<le> real S / 2 ^ 53 / N"
    using N by (intro divide_right_mono) simp_all
  moreover have "\<bar>q - x\<bar> = \<bar>s - real S\<bar> / N"
    using N by (simp add: q_def x_def diff_divide_distrib[symmetric])
  ultimately have qx: "\<bar>q - x\<bar> \<le> x / 2 ^ 53"
    by (simp add: x_def)
  have q0: "0 \<le> q"
    using s0 N by (simp add: q_def)
  have qerr: "\<bar>rnd q - q\<bar> \<le> q / 2 ^ 53"
  proof (cases "S = 0")
    case True
    then show ?thesis by (simp add: q_def s_def rnd_0)
  next
    case False
    then have "2 powi 0 \<le> real S"
      by simp
    then have "2 powi 0 \<le> s"
      unfolding s_def by (rule rnd_ge_pow2) simp
    then have "1 / N \<le> q"
      using N by (simp add: q_def divide_right_mono)
    moreover have "1 / 2 ^ 31 \<le> 1 / N"
      using N by (simp add: field_simps)
    moreover have "(2 :: real) powi (- 31) = 1 / 2 ^ 31"
      by (simp add: power_int_minus_divide)
    ultimately have "2 powi (- 1022) \<le> \<bar>q\<bar>"
      using small by linarith
    from rnd_rel_error[OF this] show ?thesis
      using q0 by simp
  qed
  have qle: "q \<le> x + x / 2 ^ 53"
    using qx by linarith
  have "q \<le> (2 ^ 32 - 1) + (2 ^ 32 - 1) / 2 ^ 53"
    using qle x(2) by (simp add: field_simps)
  also have "\<dots> \<le> real_of_int (2 ^ 53 - 2 ^ 21 + 1) * 2 powi (- 21)"
    by (simp add: power_int_minus_divide)
  finally have "rnd q \<le> real_of_int (2 ^ 53 - 2 ^ 21 + 1) * 2 powi (- 21)"
    by (rule rnd_le) simp_all
  also have "\<dots> < 2 ^ 32"
    by (simp add: power_int_minus_divide)
  finally have ub: "rnd q < 2 ^ 32" .
  have lb: "0 \<le> rnd q"
    using q0 by (rule rnd_nonneg)
  have "\<bar>rnd q - x\<bar> \<le> \<bar>rnd q - q\<bar> + \<bar>q - x\<bar>"
    by linarith
  also have "\<dots> \<le> q / 2 ^ 53 + x / 2 ^ 53"
    using qerr qx by linarith
  also have "\<dots> \<le> (x + x / 2 ^ 53) / 2 ^ 53 + x / 2 ^ 53"
    using qle by (simp add: divide_right_mono)
  also have "\<dots> \<le> x / 2 ^ 51"
    using x(1) by (simp add: field_simps)
  finally have err: "\<bar>rnd q - x\<bar> \<le> x / 2 ^ 51" .
  have "\<bar>real S\<bar> \<le> 2 ^ 31 * 2 ^ 32"
  proof -
    have "N * (2 ^ 32 - 1) \<le> 2 ^ 31 * 2 ^ 32"
      using N by (intro mult_mono) simp_all
    with S show ?thesis by simp
  qed
  then have "\<bar>real S\<bar> \<le> 2 powi 63"
    by simp
  then have d1: "dbl (real S) = Some s"
    unfolding s_def by (rule dbl_Some) simp_all
  have "q \<le> 2 ^ 33"
    using qle x by (simp add: field_simps)
  then have "\<bar>q\<bar> \<le> 2 powi 33"
    using q0 by simp
  then have d2: "dbl q = Some (rnd q)"
    by (rule dbl_Some) simp_all
  have "mean data n = Some (rnd q)"
    using assms(1,3,4) d1 d2 N by (simp add: mean_def ddiv_def q_def N_def del: of_nat_unat)
  then show "mean data n = Some (rnd (rnd (real S) / real_of_int n))"
    by (simp add: q_def s_def N_def)
  show "0 \<le> rnd (rnd (real S) / real_of_int n)"
    using lb by (simp add: q_def s_def N_def)
  show "rnd (rnd (real S) / real_of_int n) < 2 ^ 32"
    using ub by (simp add: q_def s_def N_def)
  show "\<bar>rnd (rnd (real S) / real_of_int n) - real S / real_of_int n\<bar>
           \<le> real S / real_of_int n / 2 ^ 51"
    using err by (simp add: q_def s_def N_def x_def)
qed


lemma sum_replicate_unat:
  "(\<Sum>i<k. unat (replicate k (x :: u32) ! i)) = k * unat x"
  by simp

lemma rnd_example_sum: "rnd 9007203547611135 = 9007203547611136"
proof -
  have "rnd 9007203547611135 = of_int (round_even (9007203547611135 / 2 powi 1)) * 2 powi 1"
    by (rule rnd_eval) simp_all
  also have "round_even (9007203547611135 / 2 powi 1) = 4503601773805568"
    by (simp add: round_even_def Let_def)
  finally show ?thesis
    by simp
qed

lemma rnd_example_quotient:
  "rnd (9007203547611136 / 2097153) = 4294967295 + 1 / 2097152"
proof -
  have "rnd (9007203547611136 / 2097153)
      = of_int (round_even (9007203547611136 / 2097153 / 2 powi (- 21))) * 2 powi (- 21)"
    by (rule rnd_eval) (simp_all add: power_int_minus_divide)
  also have "round_even (9007203547611136 / 2097153 / 2 powi (- 21)) = 9007199252643841"
    by (simp add: round_even_def Let_def power_int_minus_divide)
  finally show ?thesis
    by (simp add: power_int_minus_divide)
qed

lemma mean_replicate_example:
  "mean (replicate 2097153 0xFFFFFFFF) 2097153 = Some (4294967295 + 1 / 2097152)"
proof -
  let ?d = "replicate 2097153 (0xFFFFFFFF :: u32)"
  have "(2097153 :: nat) \<le> 2 ^ 32"
    by simp
  then have "unat (sum64 ?d 2097153) = (\<Sum>i<2097153. unat (?d ! i))"
    by (rule sum64_exact)
  also have "\<dots> = 2097153 * unat (0xFFFFFFFF :: u32)"
    by (rule sum_replicate_unat)
  also have "\<dots> = 9007203547611135"
    by simp
  finally have S: "unat (sum64 ?d (nat 2097153)) = 9007203547611135"
    by simp
  have "mean ?d 2097153 = Some (rnd (rnd (real 9007203547611135) / real_of_int 2097153))"
    by (rule mean_of_sum(1)[OF _ _ _ S]) simp_all
  then show ?thesis
    by (simp add: rnd_example_sum rnd_example_quotient)
qed


text \<open>
  Claim C8, as the code has it. For a buffer of \<open>n \<ge> 1\<close> words (\<open>n\<close> a C \<^verbatim>\<open>int\<close>), the 64-bit
  accumulator of \<open>mean\<close> holds the exact sum \<open>S\<close> of the samples (it never wraps). The value
  returned is the double nearest to \<open>d / n\<close>, where \<open>d\<close> is the double nearest to \<open>S\<close>; it
  lies in \<open>[0, 2^32)\<close> and differs from the exact quotient \<open>S / n\<close> by at most a \<open>2^-51\<close>-th
  of it. When \<open>S < 2^53\<close>, as it is for \<open>n \<le> 2^21\<close>, \<open>d\<close> is \<open>S\<close> and the value returned is the
  exact quotient rounded once.
\<close>

theorem mean_rounded:
  assumes "1 \<le> n" and "n < 2 ^ 31" and "nat n \<le> length data"
  shows "unat (sum64 data (nat n)) = sample_sum data (nat n)
    \<and> mean data n = Some (rnd (rnd (real (sample_sum data (nat n))) / real_of_int n))
    \<and> 0 \<le> rnd (rnd (real (sample_sum data (nat n))) / real_of_int n)
    \<and> rnd (rnd (real (sample_sum data (nat n))) / real_of_int n) < 2 ^ 32
    \<and> \<bar>rnd (rnd (real (sample_sum data (nat n))) / real_of_int n)
         - real (sample_sum data (nat n)) / real_of_int n\<bar>
        \<le> real (sample_sum data (nat n)) / real_of_int n / 2 ^ 51
    \<and> (sample_sum data (nat n) < 2 ^ 53 \<longrightarrow>
         mean data n = Some (rnd (real (sample_sum data (nat n)) / real_of_int n)))"
proof -
  define S where "S = sample_sum data (nat n)"
  have "nat n \<le> 2 ^ 32"
    using assms(2) by simp
  then have ex: "unat (sum64 data (nat n)) = S"
    unfolding S_def sample_sum_def by (rule sum64_exact)
  have b: "S \<le> nat n * (2 ^ 32 - 1)"
    unfolding S_def sample_sum_def by (rule sum_unat_bound)
  note m = mean_of_sum[OF assms ex b]
  have "mean data n = Some (rnd (real S / real_of_int n))" if "S < 2 ^ 53"
    using m(1) rnd_nat[OF that] by simp
  with ex m show ?thesis
    unfolding S_def by blast
qed

theorem mean_rounded_witness:
  "unat (sum64 [1, 2, 6] (nat 3)) = 9 \<and> mean [1, 2, 6] 3 = Some 3"
proof -
  have s: "sample_sum [1, 2, 6] (nat 3) = 9"
    by (simp add: sample_sum_def lessThan_nat_numeral lessThan_Suc)
  have "(1 :: int) \<le> 3" "(3 :: int) < 2 ^ 31" "nat 3 \<le> length [1, 2, 6 :: u32]"
    by simp_all
  from mean_rounded [OF this] show ?thesis
    unfolding s using rnd_int[of 3] rnd_int[of 9] by simp
qed

text \<open>
  Claim C8 as stated fails: for \<open>2^21 + 1\<close> samples \<open>0xFFFFFFFF\<close> the exact quotient is
  \<open>4294967295\<close>, itself a double, and \<open>mean\<close> returns \<open>4294967295 + 2^-21\<close>: the sum
  \<open>9007203547611135\<close> exceeds \<open>2^53\<close> and is rounded to \<open>9007203547611136\<close> before the division.
\<close>

theorem mean_not_exact_quotient:
  "mean (replicate 2097153 0xFFFFFFFF) 2097153 = Some (4294967295 + 1 / 2097152)
   \<and> rnd (real (sample_sum (replicate 2097153 0xFFFFFFFF) 2097153) / 2097153) = 4294967295"
proof -
  have "sample_sum (replicate 2097153 0xFFFFFFFF) 2097153 = 2097153 * unat (0xFFFFFFFF :: u32)"
    unfolding sample_sum_def by (rule sum_replicate_unat)
  then have "real (sample_sum (replicate 2097153 0xFFFFFFFF) 2097153) / 2097153 = 4294967295"
    by simp
  moreover have "rnd 4294967295 = 4294967295"
    using rnd_int[of 4294967295] by simp
  ultimately show ?thesis
    using mean_replicate_example by simp
qed

lemma rnd_abs_le_pow2:
  assumes "\<bar>x\<bar> \<le> 2 powi e" and "- 1074 \<le> e"
  shows "\<bar>rnd x\<bar> \<le> 2 powi e"
  using rnd_le_pow2[of "\<bar>x\<bar>" e] assms by (simp add: rnd_abs)

lemma stdev_sum_Suc: "stdev_sum data (Suc k) m = rnd (stdev_sum data k m + sq_dev data m k)"
  by (simp add: stdev_sum_def)

lemma stdev_acc_Suc: "stdev_acc data (Suc k) m = stdev_step data m k (stdev_acc data k m)"
  by (simp add: stdev_acc_def)

lemma sq_dev_bounds:
  assumes "\<bar>m\<bar> \<le> 2 ^ 32"
  shows "dsub (real (unat (data ! i))) m = Some (rnd (real (unat (data ! i)) - m))"
    and "dmul (rnd (real (unat (data ! i)) - m)) (rnd (real (unat (data ! i)) - m))
          = Some (sq_dev data m i)"
    and "0 \<le> sq_dev data m i" and "sq_dev data m i \<le> 2 powi 66"
proof -
  define x where "x = real (unat (data ! i))"
  define d where "d = rnd (x - m)"
  have "x < 2 ^ 32" "0 \<le> x"
    using unat_u32_less[of "data ! i"] by (simp_all add: x_def del: of_nat_unat) 
  then have xm: "\<bar>x - m\<bar> \<le> 2 powi 33"
    using assms by simp
  have d1: "dbl (x - m) = Some d"
    unfolding d_def using xm by (rule dbl_Some) simp_all
  have d: "\<bar>d\<bar> \<le> 2 powi 33"
    unfolding d_def using xm by (rule rnd_abs_le_pow2) simp
  have "\<bar>d\<bar> * \<bar>d\<bar> \<le> 2 powi 33 * 2 powi 33"
    using d by (intro mult_mono) simp_all
  then have dd: "\<bar>d * d\<bar> \<le> 2 powi 66"
    by (simp add: abs_mult)
  then have d2: "dbl (d * d) = Some (rnd (d * d))"
    by (rule dbl_Some) simp_all
  have "d * d \<le> 2 powi 66"
    using dd by linarith
  then have ub: "rnd (d * d) \<le> 2 powi 66"
    by (rule rnd_le_pow2) simp
  have lb: "0 \<le> rnd (d * d)"
    by (rule rnd_nonneg) simp
  show "dsub (real (unat (data ! i))) m = Some (rnd (real (unat (data ! i)) - m))"
    using d1 by (simp add: dsub_def x_def d_def)
  show "dmul (rnd (real (unat (data ! i)) - m)) (rnd (real (unat (data ! i)) - m))
          = Some (sq_dev data m i)"
    using d2 by (simp add: dmul_def sq_dev_def x_def d_def)
  show "0 \<le> sq_dev data m i"
    using lb by (simp add: sq_dev_def x_def d_def)
  show "sq_dev data m i \<le> 2 powi 66"
    using ub by (simp add: sq_dev_def x_def d_def)
qed

lemma stdev_acc_value:
  assumes "\<bar>m\<bar> \<le> 2 ^ 32" and "k \<le> 2 ^ 31"
  shows "stdev_acc data k m = Some (stdev_sum data k m)
    \<and> 0 \<le> stdev_sum data k m \<and> stdev_sum data k m \<le> real k * 2 powi 66"
  using assms(2)
proof (induction k)
  case 0
  show ?case by (simp add: stdev_acc_def stdev_sum_def)
next
  case (Suc k)
  define a where "a = stdev_sum data k m"
  define sq where "sq = sq_dev data m k"
  define C :: real where "C = 2 powi 66"
  have C: "0 \<le> C"
    by (simp add: C_def)
  from Suc have acc: "stdev_acc data k m = Some a" and a: "0 \<le> a" "a \<le> real k * C"
    by (simp_all add: a_def C_def)
  have sq: "dsub (real (unat (data ! k))) m = Some (rnd (real (unat (data ! k)) - m))"
    "dmul (rnd (real (unat (data ! k)) - m)) (rnd (real (unat (data ! k)) - m)) = Some sq"
    "0 \<le> sq" "sq \<le> C"
    unfolding sq_def C_def by (rule sq_dev_bounds[OF assms(1)])+
  have "a + sq \<le> real k * C + C"
    using a(2) sq(4) by linarith
  also have "\<dots> = of_int (int (Suc k)) * C"
    by (simp add: algebra_simps)
  finally have le: "a + sq \<le> of_int (int (Suc k)) * 2 powi 66"
    by (simp only: C_def)
  have "int (Suc k) \<le> int (2 ^ 31)"
    using Suc.prems by (rule of_nat_mono)
  then have "int (Suc k) \<le> 2 ^ 31"
    by simp
  then have k53: "\<bar>int (Suc k)\<bar> < 2 ^ 53"
    by simp
  have ub: "rnd (a + sq) \<le> of_int (int (Suc k)) * 2 powi 66"
    using le k53 by (rule rnd_le) simp
  have lb: "0 \<le> rnd (a + sq)"
    using a(1) sq(3) by (intro rnd_nonneg) simp
  have "real_of_int (int (Suc k)) \<le> 2 ^ 31"
    using \<open>int (Suc k) \<le> 2 ^ 31\<close> by (metis of_int_le_iff of_int_numeral of_int_power)
  then have "of_int (int (Suc k)) * C \<le> 2 ^ 31 * C"
    using C by (intro mult_right_mono)
  also have "2 ^ 31 * C = 2 powi 97"
    by (simp add: C_def)
  finally have "\<bar>a + sq\<bar> \<le> 2 powi 97"
    using le a(1) sq(3) unfolding C_def by linarith
  then have "dbl (a + sq) = Some (rnd (a + sq))"
    by (rule dbl_Some) simp_all
  then have "stdev_acc data (Suc k) m = Some (rnd (a + sq))"
    using acc sq(1,2) by (simp add: stdev_acc_Suc stdev_step_def dadd_def)
  moreover have "stdev_sum data (Suc k) m = rnd (a + sq)"
    by (simp only: stdev_sum_Suc a_def sq_def)
  moreover have "real (Suc k) = real_of_int (int (Suc k))"
    by simp
  ultimately show ?case
    using ub lb by (simp only: simp_thms)
qed


lemma stdev_value:
  assumes "1 \<le> n" and "n < 2 ^ 31" and "nat n \<le> length data" and "\<bar>m\<bar> \<le> 2 ^ 32"
  shows "stdev data n m = Some (rnd (sqrt (rnd (stdev_sum data (nat n) m / real_of_int n))))"
    and "0 \<le> rnd (sqrt (rnd (stdev_sum data (nat n) m / real_of_int n)))"
proof -
  define A where "A = stdev_sum data (nat n) m"
  define N where "N = real_of_int n"
  define v where "v = rnd (A / N)"
  have N: "1 \<le> N" "N = real (nat n)"
    using assms(1) by (simp_all add: N_def)
  have "nat n \<le> 2 ^ 31"
    using assms(2) by simp
  from stdev_acc_value[OF assms(4) this, of data]
  have acc: "stdev_acc data (nat n) m = Some A" and A: "0 \<le> A" "A \<le> N * 2 powi 66"
    by (simp_all add: A_def N(2))
  have q: "0 \<le> A / N" "A / N \<le> 2 powi 66"
    using A N(1) by (simp_all add: field_simps)
  then have "\<bar>A / N\<bar> \<le> 2 powi 66"
    by simp
  then have d1: "dbl (A / N) = Some v"
    unfolding v_def by (rule dbl_Some) simp_all
  have v: "0 \<le> v" "v \<le> 2 powi 66"
  proof -
    show "0 \<le> v"
      unfolding v_def using q(1) by (rule rnd_nonneg)
    show "v \<le> 2 powi 66"
      unfolding v_def using q(2) by (rule rnd_le_pow2) simp
  qed
  have "sqrt v \<le> sqrt ((2 ^ 33)\<^sup>2)"
    using v(2) by (intro real_sqrt_le_mono) simp
  then have "sqrt v \<le> 2 powi 33"
    by (simp only: real_sqrt_abs) simp
  then have "\<bar>sqrt v\<bar> \<le> 2 powi 33"
    using v(1) by simp
  then have d2: "dbl (sqrt v) = Some (rnd (sqrt v))"
    by (rule dbl_Some) simp_all
  have "stdev data n m = Some (rnd (sqrt v))"
    using assms(1,3) acc d1 d2 v(1) N(1) by (simp add: stdev_def ddiv_def dsqrt_def N_def)
  then show "stdev data n m = Some (rnd (sqrt (rnd (stdev_sum data (nat n) m / real_of_int n))))"
    by (simp only: v_def A_def N_def)
  have "0 \<le> rnd (sqrt v)"
    using v(1) by (intro rnd_nonneg) simp
  then show "0 \<le> rnd (sqrt (rnd (stdev_sum data (nat n) m / real_of_int n)))"
    by (simp only: v_def A_def N_def)
qed

lemma stdev_sum_zero:
  assumes "\<forall>i<k. real (unat (data ! i)) = m"
  shows "stdev_sum data k m = 0"
  using assms
proof (induction k)
  case 0
  show ?case by (simp add: stdev_sum_def)
next
  case (Suc k)
  then have "stdev_sum data k m = 0" and "real (unat (data ! k)) = m"
    by simp_all
  then show ?case
    by (simp add: stdev_sum_Suc sq_dev_def rnd_0 del: of_nat_unat)
qed

lemma sq_dev_nonneg: "0 \<le> sq_dev data m i"
  unfolding sq_dev_def by (rule rnd_nonneg) simp

lemma stdev_sum_nonneg: "0 \<le> stdev_sum data k m"
proof (induction k)
  case 0
  show ?case by (simp add: stdev_sum_def)
next
  case (Suc k)
  then have "0 \<le> stdev_sum data k m + sq_dev data m k"
    using sq_dev_nonneg[of data m k] by linarith
  then show ?case
    unfolding stdev_sum_Suc by (rule rnd_nonneg)
qed

lemma stdev_sum_rnd: "rnd (stdev_sum data k m) = stdev_sum data k m"
  by (cases k) (simp_all add: stdev_sum_Suc rnd_idem, simp add: stdev_sum_def rnd_0)

lemma stdev_sum_ge:
  assumes "i < k"
  shows "sq_dev data m i \<le> stdev_sum data k m"
  using assms
proof (induction k)
  case 0
  then show ?case by simp
next
  case (Suc k)
  define a where "a = stdev_sum data k m"
  define sq where "sq = sq_dev data m k"
  have a: "0 \<le> a" "rnd a = a"
    by (simp_all add: a_def stdev_sum_nonneg stdev_sum_rnd)
  have sq: "0 \<le> sq" "rnd sq = sq"
    by (simp_all add: sq_def sq_dev_nonneg) (simp add: sq_dev_def rnd_idem)
  have 1: "sq \<le> rnd (a + sq)"
    using rnd_mono[of sq "a + sq"] a(1) sq(2) by simp
  have 2: "a \<le> rnd (a + sq)"
    using rnd_mono[of a "a + sq"] sq(1) a(2) by simp
  show ?case
  proof (cases "i = k")
    case True
    then show ?thesis
      using 1 by (simp add: stdev_sum_Suc a_def sq_def)
  next
    case False
    then have "sq_dev data m i \<le> a"
      using Suc by (simp add: a_def)
    then show ?thesis
      using 2 by (simp add: stdev_sum_Suc a_def sq_def)
  qed
qed

lemma stdev_positive:
  assumes "1 \<le> n" and "n < 2 ^ 31" and "i < nat n" and "1 / 4 \<le> \<bar>real (unat (data ! i)) - m\<bar>"
  shows "0 < rnd (sqrt (rnd (stdev_sum data (nat n) m / real_of_int n)))"
proof -
  define A where "A = stdev_sum data (nat n) m"
  define N where "N = real_of_int n"
  define d where "d = rnd (real (unat (data ! i)) - m)"
  define p :: real where "p = 2 powi (- 35)"
  have N: "1 \<le> N" "N \<le> 2 ^ 31"
    using assms(1,2) by (simp_all add: N_def)
  have "2 powi (- 2) \<le> \<bar>real (unat (data ! i)) - m\<bar>"
    using assms(4) by (simp add: power_int_minus_divide)
  then have "2 powi (- 2) \<le> rnd \<bar>real (unat (data ! i)) - m\<bar>"
    by (rule rnd_ge_pow2) simp
  then have d: "1 / 4 \<le> \<bar>d\<bar>"
    by (simp add: d_def rnd_abs power_int_minus_divide)
  then have "1 / 4 * (1 / 4) \<le> \<bar>d\<bar> * \<bar>d\<bar>"
    by (intro mult_mono) simp_all
  then have "2 powi (- 4) \<le> d * d"
    by (simp add: power_int_minus_divide abs_mult[symmetric])
  then have "2 powi (- 4) \<le> rnd (d * d)"
    by (rule rnd_ge_pow2) simp
  then have "2 powi (- 4) \<le> sq_dev data m i"
    by (simp only: sq_dev_def d_def)
  also have "\<dots> \<le> A"
    unfolding A_def using assms(3) by (rule stdev_sum_ge)
  finally have A: "1 / 16 \<le> A"
    by (simp add: power_int_minus_divide)
  have "1 / 16 / 2 ^ 31 \<le> A / N"
    using A N by (intro frac_le) simp_all
  then have "p \<le> A / N"
    by (simp add: p_def power_int_minus_divide)
  then have v: "p \<le> rnd (A / N)"
    unfolding p_def by (rule rnd_ge_pow2) simp
  have p: "0 < p" "p \<le> 1"
    by (simp_all add: p_def power_int_minus_divide)
  have "p * p \<le> p * 1"
    using p by (intro mult_left_mono) simp_all
  then have "p\<^sup>2 \<le> rnd (A / N)"
    using v by (simp add: power2_eq_square)
  then have "sqrt (p\<^sup>2) \<le> sqrt (rnd (A / N))"
    by (rule real_sqrt_le_mono)
  then have "p \<le> sqrt (rnd (A / N))"
    using p(1) by simp
  then have "p \<le> rnd (sqrt (rnd (A / N)))"
    unfolding p_def by (rule rnd_ge_pow2) simp
  then show ?thesis
    using p(1) by (simp add: A_def N_def)
qed


lemma mean_in_range:
  assumes "1 \<le> n" and "n < 2 ^ 31" and "nat n \<le> length data"
  shows "mean data n = Some (rnd (rnd (real (sample_sum data (nat n))) / real_of_int n))"
    and "\<bar>rnd (rnd (real (sample_sum data (nat n))) / real_of_int n)\<bar> \<le> 2 ^ 32"
proof -
  have "nat n \<le> 2 ^ 32"
    using assms(2) by simp
  then have ex: "unat (sum64 data (nat n)) = sample_sum data (nat n)"
    unfolding sample_sum_def by (rule sum64_exact)
  have b: "sample_sum data (nat n) \<le> nat n * (2 ^ 32 - 1)"
    unfolding sample_sum_def by (rule sum_unat_bound)
  note m = mean_of_sum[OF assms ex b]
  show "mean data n = Some (rnd (rnd (real (sample_sum data (nat n))) / real_of_int n))"
    by (rule m(1))
  show "\<bar>rnd (rnd (real (sample_sum data (nat n))) / real_of_int n)\<bar> \<le> 2 ^ 32"
    using m(2,3) by linarith
qed

lemma mean_all_equal:
  assumes "1 \<le> n" and "\<forall>i<nat n. \<forall>j<nat n. data ! i = data ! j"
    and "sample_sum data (nat n) < 2 ^ 53" and "i < nat n"
  shows "rnd (rnd (real (sample_sum data (nat n))) / real_of_int n) = real (unat (data ! i))"
proof -
  have eq: "data ! j = data ! i" if "j < nat n" for j
    using assms(2,4) that by blast
  have "sample_sum data (nat n) = (\<Sum>j<nat n. unat (data ! i))"
    unfolding sample_sum_def
  proof (rule sum.cong)
    fix j assume "j \<in> {..<nat n}"
    then have "data ! j = data ! i" by (intro eq) simp
    then show "unat (data ! j) = unat (data ! i)" by (rule arg_cong)
  qed simp
  then have S: "sample_sum data (nat n) = nat n * unat (data ! i)"
    by simp
  have "real (sample_sum data (nat n)) / real_of_int n = real (unat (data ! i))"
    using assms(1) unfolding S by (simp del: of_nat_unat)
  moreover have "unat (data ! i) < 2 ^ 53"
    using unat_u32_less[of "data ! i"] by simp
  ultimately show ?thesis
    using rnd_nat[OF assms(3)] rnd_nat[of "unat (data ! i)"] by (simp del: of_nat_unat)
qed

text \<open>
  Claim C9, as the code has it. For a buffer of \<open>n \<ge> 1\<close> words and a supplied \<open>m\<close> of magnitude
  at most \<open>2^32\<close>, \<open>stdev data n m\<close> is \<open>sqrt (\<Sum> (x_i - m)^2 / n)\<close> evaluated in binary64
  arithmetic: every subtraction, product and addition, the division and the square
  root are rounded. \<open>stdev\<close> applied to the result of \<open>mean\<close> on the same buffer is
  non-negative; it is zero only if all \<open>n\<close> elements are equal, and it is zero for \<open>n\<close>
  equal elements whenever their sum is below \<open>2^53\<close>, as it is for \<open>n \<le> 2^21\<close>.
\<close>

theorem stdev_double:
  assumes "1 \<le> n" and "n < 2 ^ 31" and "nat n \<le> length data"
  shows "(\<bar>m\<bar> \<le> 2 ^ 32 \<longrightarrow>
        stdev data n m = Some (rnd (sqrt (rnd (stdev_sum data (nat n) m / real_of_int n)))))
    \<and> (\<exists>sd. stdev_of_mean data n = Some sd \<and> 0 \<le> sd
          \<and> (sd = 0 \<longrightarrow> (\<forall>i<nat n. \<forall>j<nat n. data ! i = data ! j))
          \<and> ((\<forall>i<nat n. \<forall>j<nat n. data ! i = data ! j) \<and> sample_sum data (nat n) < 2 ^ 53
                \<longrightarrow> sd = 0))"
proof -
  define mu where "mu = rnd (rnd (real (sample_sum data (nat n))) / real_of_int n)"
  define sd where "sd = rnd (sqrt (rnd (stdev_sum data (nat n) mu / real_of_int n)))"
  have mn: "mean data n = Some mu" and mu: "\<bar>mu\<bar> \<le> 2 ^ 32"
    unfolding mu_def by (rule mean_in_range[OF assms])+
  have comp: "stdev_of_mean data n = Some sd"
    using stdev_value(1)[OF assms mu] by (simp add: stdev_of_mean_def mn sd_def)
  have sd0: "0 \<le> sd"
    unfolding sd_def by (rule stdev_value(2)[OF assms mu])
  have z1: "\<forall>i<nat n. \<forall>j<nat n. data ! i = data ! j" if "sd = 0"
  proof (intro allI impI)
    fix i j assume ij: "i < nat n" "j < nat n"
    have near: "\<bar>real (unat (data ! k)) - mu\<bar> < 1 / 4" if "k < nat n" for k
    proof (rule ccontr)
      assume "\<not> \<bar>real (unat (data ! k)) - mu\<bar> < 1 / 4"
      then have "1 / 4 \<le> \<bar>real (unat (data ! k)) - mu\<bar>"
        by simp
      from stdev_positive[OF assms(1,2) that this] \<open>sd = 0\<close> show False
        by (simp add: sd_def)
    qed
    from near[OF ij(1)] near[OF ij(2)]
    have "\<bar>real (unat (data ! i)) - real (unat (data ! j))\<bar> < 1"
      by linarith
    then have "unat (data ! i) = unat (data ! j)"
      by linarith
    then show "data ! i = data ! j"
      by (simp add: word_unat_eq_iff)
  qed
  have z2: "sd = 0"
    if "\<forall>i<nat n. \<forall>j<nat n. data ! i = data ! j" and "sample_sum data (nat n) < 2 ^ 53"
  proof -
    have "\<forall>i<nat n. real (unat (data ! i)) = mu"
      using mean_all_equal[OF assms(1) that] by (simp add: mu_def del: of_nat_unat)
    then have "stdev_sum data (nat n) mu = 0"
      by (rule stdev_sum_zero)
    then show ?thesis
      by (simp add: sd_def rnd_0)
  qed
  have f: "stdev data n m = Some (rnd (sqrt (rnd (stdev_sum data (nat n) m / real_of_int n))))"
    if "\<bar>m\<bar> \<le> 2 ^ 32"
    by (rule stdev_value(1)[OF assms that])
  from f comp sd0 z1 z2 show ?thesis
    by blast
qed


theorem stdev_double_witness:
  "stdev [4, 4, 4] 3 4 = Some 0 \<and> stdev_of_mean [4, 4, 4] 3 = Some 0"
proof -
  let ?d = "[4, 4, 4 :: u32]"
  have h: "(1 :: int) \<le> 3" "(3 :: int) < 2 ^ 31" "nat 3 \<le> length ?d"
    by simp_all
  have "?d ! i = 4" if "i < 3" for i
    using that by (auto simp add: nth_Cons')
  then have eq: "\<forall>i<nat 3. \<forall>j<nat 3. ?d ! i = ?d ! j"
    by simp
  have s: "sample_sum ?d (nat 3) < 2 ^ 53"
    by (simp add: sample_sum_def lessThan_nat_numeral lessThan_Suc)
  have z: "stdev_sum ?d 3 4 = 0"
    by (rule stdev_sum_zero) (simp add: nth_Cons' del: of_nat_unat)
  from stdev_double [OF h, of 4]
  obtain sd where f: "stdev ?d 3 4 = Some (rnd (sqrt (rnd (stdev_sum ?d (nat 3) 4 / real_of_int 3))))"
    and c: "stdev_of_mean ?d 3 = Some sd"
    and z2: "(\<forall>i<nat 3. \<forall>j<nat 3. ?d ! i = ?d ! j) \<and> sample_sum ?d (nat 3) < 2 ^ 53 \<longrightarrow> sd = 0"
    by auto
  from z2 eq s have "sd = 0" by blast
  then show ?thesis
    using f c by (simp add: z rnd_0)
qed

lemma stdev_sum_constant:
  assumes "\<forall>i<k. sq_dev data m i = 2 powi e" and "- 1074 \<le> e" and "k < 2 ^ 53"
  shows "stdev_sum data k m = real k * 2 powi e"
  using assms(1,3)
proof (induction k)
  case 0
  show ?case by (simp add: stdev_sum_def)
next
  case (Suc k)
  then have a: "stdev_sum data k m = real k * 2 powi e" and sq: "sq_dev data m k = 2 powi e"
    by simp_all
  have "int (Suc k) < int (2 ^ 53)"
    using Suc.prems(2) by (simp only: of_nat_less_iff)
  then have "\<bar>int (Suc k)\<bar> < 2 ^ 53"
    by simp
  from rnd_representable[OF this assms(2)]
  have "rnd (real (Suc k) * 2 powi e) = real (Suc k) * 2 powi e"
    by simp
  moreover have "stdev_sum data k m + sq_dev data m k = real (Suc k) * 2 powi e"
    by (simp add: a sq algebra_simps)
  ultimately show ?case
    by (simp only: stdev_sum_Suc)
qed

lemma stdev_replicate_example:
  "stdev (replicate 2097153 0xFFFFFFFF) 2097153 (4294967295 + 1 / 2097152) = Some (1 / 2097152)"
proof -
  define dd where "dd = replicate 2097153 (0xFFFFFFFF :: u32)"
  define m :: real where "m = 4294967295 + 1 / 2097152"
  have d: "rnd (- (1 / 2097152)) = - (1 / 2097152)"
    using rnd_representable[of "- 1" "- 21"] by (simp add: power_int_minus_divide)
  have "rnd (2 powi (- 42)) = 2 powi (- 42)"
    by (rule rnd_pow2) simp
  moreover have "- (1 / 2097152) * - (1 / 2097152) = (2 :: real) powi (- 42)"
    by (simp add: power_int_minus_divide)
  ultimately have sq: "rnd (- (1 / 2097152) * - (1 / 2097152)) = 2 powi (- 42)"
    by (simp only:)
  have "sq_dev dd m i = 2 powi (- 42)" if "i < 2097153" for i
  proof -
    have "real (unat (dd ! i)) - m = - (1 / 2097152)"
      using that by (simp add: dd_def m_def)
    then show ?thesis
      unfolding sq_dev_def by (simp only: d sq)
  qed
  then have "\<forall>i<2097153. sq_dev dd m i = 2 powi (- 42)"
    by blast
  then have A: "stdev_sum dd 2097153 m = real 2097153 * 2 powi (- 42)"
    by (rule stdev_sum_constant) simp_all
  have v: "rnd (stdev_sum dd 2097153 m / 2097153) = 2 powi (- 42)"
    using rnd_pow2[of "- 42"] by (simp add: A)
  have "((2 :: real) powi (- 21))\<^sup>2 = 2 powi (- 42)"
    by (simp add: power_int_minus_divide power2_eq_square)
  then have "sqrt (2 powi (- 42)) = sqrt ((2 powi (- 21))\<^sup>2)"
    by (simp only:)
  also have "\<dots> = 2 powi (- 21)"
    by (simp only: real_sqrt_abs) simp
  finally have r: "sqrt (2 powi (- 42)) = 2 powi (- 21)" .
  have "stdev dd 2097153 m = Some (rnd (sqrt (rnd (stdev_sum dd (nat 2097153) m / real_of_int 2097153))))"
    by (rule stdev_value(1)) (simp_all add: dd_def m_def)
  also have "stdev_sum dd (nat 2097153) m / real_of_int 2097153 = stdev_sum dd 2097153 m / 2097153"
    by simp
  finally have "stdev dd 2097153 m = Some (rnd (2 powi (- 21)))"
    by (simp only: v r)
  also have "rnd (2 powi (- 21)) = 2 powi (- 21)"
    by (rule rnd_pow2) simp
  also have "(2 :: real) powi (- 21) = 1 / 2097152"
    by (simp add: power_int_minus_divide)
  finally show ?thesis
    by (simp only: dd_def m_def)
qed

text \<open>
  Claim C9 as stated fails: for \<open>2^21 + 1\<close> equal samples \<open>0xFFFFFFFF\<close> the mean returned
  is \<open>4294967295 + 2^-21\<close>, every deviation is \<open>-2^-21\<close>, and \<open>stdev\<close> returns \<open>2^-21\<close>,
  not 0.
\<close>

theorem stdev_of_mean_all_equal_nonzero:
  "stdev_of_mean (replicate 2097153 0xFFFFFFFF) 2097153 = Some (1 / 2097152)
   \<and> set (replicate 2097153 (0xFFFFFFFF :: u32)) = {0xFFFFFFFF}"
proof -
  have "stdev_of_mean (replicate 2097153 0xFFFFFFFF) 2097153 = Some (1 / 2097152)"
    unfolding stdev_of_mean_def mean_replicate_example
    by (simp only: option.simps stdev_replicate_example)
  then show ?thesis
    by simp
qed

section \<open>Serial test: cyclic pair counts\<close>

lemma upt_4: "[0..<4] = [0, 1, 2, 3]"
  by (simp add: upt_rec)

lemma pair_index_bits:
  assumes "a \<le> 1" and "b \<le> 1"
  shows "pair_index (int a) (int b) = 2 * a + b"
proof -
  from assms have "(a = 0 \<or> a = 1) \<and> (b = 0 \<or> b = 1)" by auto
  then show ?thesis by (auto simp add: pair_index_def)
qed

lemma first_bit: "uint (w ! 0 AND 1) = int (bit_at w 0)"
  by (simp add: bit_at_def)

lemma serial2_walk_Suc: "serial2_walk w (Suc k) = serial2_step w k (serial2_walk w k)"
  by (simp add: serial2_walk_def)

lemma lin_count_0: "lin_count w 0 p = 0" "lin_count w (Suc 0) p = 0"
  by (simp_all add: lin_count_def)

lemma lin_count_Suc:
  "lin_count w (Suc (Suc k)) p =
     lin_count w (Suc k) p + (if 2 * bit_at w k + bit_at w (Suc k) = p then 1 else 0)"
proof -
  let ?P = "\<lambda>i. 2 * bit_at w i + bit_at w (Suc i) = p"
  have fin: "finite {i. Suc i < Suc k \<and> ?P i}" by simp
  have "{i. Suc i < Suc (Suc k) \<and> ?P i} = {i. Suc i < Suc k \<and> ?P i} \<union> (if ?P k then {k} else {})"
    by (auto simp add: less_Suc_eq)
  moreover have "{i. Suc i < Suc k \<and> ?P i} \<inter> (if ?P k then {k} else {}) = {}"
    by auto
  ultimately have "card {i. Suc i < Suc (Suc k) \<and> ?P i} =
      card {i. Suc i < Suc k \<and> ?P i} + card (if ?P k then {k} else {})"
    using fin by (simp add: card_Un_disjoint)
  then show ?thesis by (simp add: lin_count_def)
qed

lemma serial2_walk_pairs:
  "snd (serial2_walk w k) =
     (map (lin_count w k) [0..<4], if k = 0 then - 1 else int (bit_at w (k - 1)))"
proof (induction k)
  case 0
  show ?case by (simp add: serial2_walk_def upt_4 lin_count_0)
next
  case (Suc k)
  obtain c1 where w: "serial2_walk w k =
      (c1, map (lin_count w k) [0..<4], if k = 0 then - 1 else int (bit_at w (k - 1)))"
    using Suc.IH by (cases "serial2_walk w k") simp
  show ?case
  proof (cases k)
    case 0
    then show ?thesis
      unfolding serial2_walk_Suc w by (simp add: serial2_step_def Let_def upt_4 lin_count_0)
  next
    case (Suc j)
    let ?a = "bit_at w j" and ?b = "bit_at w (Suc j)"
    have idx: "pair_index (int ?a) (int ?b) = 2 * ?a + ?b"
      by (rule pair_index_bits) (rule bit_at_le1)+
    have lt: "2 * ?a + ?b < 4"
      using bit_at_le1 [of w j] bit_at_le1 [of w "Suc j"] by linarith
    have "(map (lin_count w (Suc j)) [0..<4])
            [2 * ?a + ?b := lin_count w (Suc j) (2 * ?a + ?b) + 1]
          = map (lin_count w (Suc (Suc j))) [0..<4]"
      using lt by (auto simp add: list_eq_iff_nth_eq nth_list_update lin_count_Suc)
    then show ?thesis
      unfolding serial2_walk_Suc w using lt
      by (simp add: serial2_step_def Let_def Suc idx)
  qed
qed

lemma pair_count_closing:
  assumes "0 < n"
  shows "pair_count w n p =
     lin_count w n p + (if 2 * bit_at w (n - 1) + bit_at w 0 = p then 1 else 0)"
proof -
  let ?Q = "\<lambda>i. 2 * bit_at w i + bit_at w ((i + 1) mod n) = p"
  let ?P = "\<lambda>i. 2 * bit_at w i + bit_at w (Suc i) = p"
  let ?L = "{i. Suc i < n \<and> ?P i}"
  let ?C = "if 2 * bit_at w (n - 1) + bit_at w 0 = p then {n - 1} else {}"
  have "{i. i < n \<and> ?Q i} = ?L \<union> ?C"
  proof (intro set_eqI iffI)
    fix i assume "i \<in> {i. i < n \<and> ?Q i}"
    then have i: "i < n" "?Q i" by simp_all
    show "i \<in> ?L \<union> ?C"
    proof (cases "Suc i < n")
      case True
      then have "(i + 1) mod n = Suc i" by simp
      with i True show ?thesis by simp
    next
      case False
      with i have e: "i = n - 1" by linarith
      then have "(i + 1) mod n = 0" using assms by simp
      with i e show ?thesis by simp
    qed
  next
    fix i assume "i \<in> ?L \<union> ?C"
    then consider "Suc i < n" "?P i" | "i = n - 1" "2 * bit_at w (n - 1) + bit_at w 0 = p"
      by (auto split: if_splits)
    then show "i \<in> {i. i < n \<and> ?Q i}"
    proof cases
      case 1
      then have "(i + 1) mod n = Suc i" by simp
      with 1 show ?thesis by simp
    next
      case 2
      then have "(i + 1) mod n = 0" using assms by simp
      with 2 assms show ?thesis by simp
    qed
  qed
  moreover have "?L \<inter> ?C = {}" by auto
  moreover have "finite ?L" by (rule finite_subset [of _ "{..<n}"]) auto
  ultimately have "card {i. i < n \<and> ?Q i} = card ?L + card ?C"
    by (simp add: card_Un_disjoint)
  then show ?thesis by (simp add: pair_count_def lin_count_def)
qed

lemma pair_count_sum:
  assumes "0 < n"
  shows "sum_list (map (pair_count w n) [0..<4]) = n"
proof -
  let ?g = "\<lambda>i. 2 * bit_at w i + bit_at w ((i + 1) mod n)"
  have "?g i < 4" for i
    using bit_at_le1 [of w i] bit_at_le1 [of w "(i + 1) mod n"] by linarith
  then have sub: "?g ` {..<n} \<subseteq> {..<4}" by auto
  have "(\<Sum>p\<in>{..<4}. sum (\<lambda>_. 1 :: nat) {i \<in> {..<n}. ?g i = p}) = sum (\<lambda>_. 1) {..<n}"
    by (rule sum.group) (use sub in simp_all)
  then have "(\<Sum>p<4. pair_count w n p) = n"
    by (simp add: pair_count_def)
  moreover have "sum_list (map (pair_count w n) [0..<4]) = (\<Sum>p<4. pair_count w n p)"
    by (simp add: interv_sum_list_conv_sum_set_nat atLeast0LessThan)
  ultimately show ?thesis by simp
qed

lemma succ_mod:
  "i < n \<Longrightarrow> (i + 1) mod n = (if Suc i = n then 0 else Suc i)"
  by simp

lemma cyclic_pairs_two:
  fixes n j :: nat
  assumes "2 \<le> n" and "j < n"
  shows "card {i. i < n \<and> (i = j \<or> (i + 1) mod n = j)} = 2"
proof -
  define p where "p = (if j = 0 then n - 1 else j - 1)"
  have ne: "p \<noteq> j" using assms by (auto simp add: p_def)
  have "{i. i < n \<and> (i = j \<or> (i + 1) mod n = j)}
      = {i. i < n \<and> (i = j \<or> (if Suc i = n then 0 else Suc i) = j)}"
    by (simp only: succ_mod cong: conj_cong)
  also have "\<dots> = {j, p}"
    using assms by (auto simp add: p_def split: if_splits)
  finally show ?thesis using ne by simp
qed

text \<open>
  Claim C4. For a buffer of \<open>len \<ge> 1\<close> words (\<open>32 * len\<close> within \<^verbatim>\<open>size_t\<close>), the four
  pair counters of \<open>nist_serial2\<close> are the cyclic pair counts of the bitstream: one pair
  per bit position \<open>i\<close>, formed with position \<open>(i + 1) mod n\<close>, so the pair of the last
  bit wraps to the first bit. The counters sum to \<open>32 * len\<close>, and every position belongs
  to exactly two of the pairs.
\<close>

theorem serial2_cyclic_pairs:
  assumes "1 \<le> len" and "len \<le> length w" and "len < 2 ^ 59"
  shows "map_option snd (serial2_counts w len) = Some (map (pair_count w (32 * len)) [0..<4])
    \<and> sum_list (map (pair_count w (32 * len)) [0..<4]) = 32 * len
    \<and> (\<forall>j<32 * len. card {i. i < 32 * len \<and> (i = j \<or> (i + 1) mod (32 * len) = j)} = 2)"
proof -
  let ?n = "32 * len"
  have n: "size_mul32 len = ?n" using assms(3) by (rule size_mul32_small)
  have pos: "0 < ?n" using assms(1) by simp
  obtain c1 where wk: "serial2_walk w ?n =
      (c1, map (lin_count w ?n) [0..<4], int (bit_at w (?n - 1)))"
    using serial2_walk_pairs [of w ?n] pos by (cases "serial2_walk w ?n") simp
  let ?a = "bit_at w (?n - 1)" and ?b = "bit_at w 0"
  have idx: "pair_index (int ?a) (int ?b) = 2 * ?a + ?b"
    by (rule pair_index_bits) (rule bit_at_le1)+
  have lt: "2 * ?a + ?b < 4"
    using bit_at_le1 [of w "?n - 1"] bit_at_le1 [of w 0] by linarith
  let ?L = "map (lin_count w ?n) [0..<4]"
  have upd: "?L [2 * ?a + ?b := ?L ! (2 * ?a + ?b) + 1] = map (pair_count w ?n) [0..<4]"
    using lt by (auto simp add: list_eq_iff_nth_eq nth_list_update pair_count_closing [OF pos])
  have "serial2_counts w len =
      Some (c1, ?L [pair_index (int ?a) (int ?b) := ?L ! pair_index (int ?a) (int ?b) + 1])"
    using assms(1,2) by (simp add: serial2_counts_def n wk first_bit Let_def)
  then have "serial2_counts w len = Some (c1, map (pair_count w ?n) [0..<4])"
    unfolding idx upd .
  moreover have "sum_list (map (pair_count w ?n) [0..<4]) = ?n"
    using pos by (rule pair_count_sum)
  moreover have "\<forall>j<?n. card {i. i < ?n \<and> (i = j \<or> (i + 1) mod ?n = j)} = 2"
    using assms(1) by (intro allI impI cyclic_pairs_two) simp_all
  ultimately show ?thesis by simp
qed


lemma serial2_walk_example: "serial2_walk [0x0000FFFF] 32 = ([16, 16], [15, 0, 1, 15], 0)"
  by code_simp

lemma serial2_counts_example:
  "serial2_counts [0x0000FFFF] 1 = Some ([16, 16], [15, 1, 1, 15])"
  by (simp add: serial2_counts_def serial2_walk_example pair_index_def size_mul32_def)

theorem serial2_cyclic_pairs_witness:
  "map_option snd (serial2_counts [0x0000FFFF] 1) = Some [15, 1, 1, 15]
    \<and> map (pair_count [0x0000FFFF] (32 * 1)) [0..<4] = [15, 1, 1, 15]
    \<and> sum_list (map (pair_count [0x0000FFFF] (32 * 1)) [0..<4]) = 32 * 1
    \<and> card {i :: nat. i < 32 * 1 \<and> (i = 31 \<or> (i + 1) mod (32 * 1) = 31)} = 2"
proof -
  have "(1 :: nat) \<le> 1" and "1 \<le> length [0x0000FFFF :: u32]" and "(1 :: nat) < 2 ^ 59"
    by simp_all
  from serial2_cyclic_pairs [OF this]
  have a: "map_option snd (serial2_counts [0x0000FFFF] 1)
        = Some (map (pair_count [0x0000FFFF] (32 * 1)) [0..<4])"
    and b: "sum_list (map (pair_count [0x0000FFFF] (32 * 1)) [0..<4]) = 32 * 1"
    and c: "\<forall>j::nat<32 * 1. card {i. i < 32 * 1 \<and> (i = j \<or> (i + 1) mod (32 * 1) = j)} = 2"
    by blast+
  from a have a': "map (pair_count [0x0000FFFF] (32 * 1)) [0..<4] = [15, 1, 1, 15]"
    unfolding serial2_counts_example by simp
  from c have c': "card {i :: nat. i < 32 * 1 \<and> (i = 31 \<or> (i + 1) mod (32 * 1) = 31)} = 2"
    by simp
  show ?thesis
    unfolding serial2_counts_example using a' b c' by simp
qed

section \<open>Chi-squared statistic\<close>

lemma chi_bin_2_32:
  assumes "1 \<le> bins" and "bins < 2 ^ 31"
  shows "chi_bin x bins (2 ^ 32) = int (unat x * nat bins div 2 ^ 32)"
    and "unat x * nat bins div 2 ^ 32 < nat bins"
proof -
  let ?B = "nat bins"
  have x: "unat x < 2 ^ 32"
    using unsigned_less [of x, where ?'a = nat] by simp
  have B: "0 < ?B" "?B < 2 ^ 31" using assms by simp_all
  have "unat x * ?B < 2 ^ 32 * ?B" using x B by simp
  then show q: "unat x * ?B div 2 ^ 32 < ?B"
    by (simp add: less_mult_imp_div_less mult.commute)
  have "unat x * ?B < 2 ^ 32 * 2 ^ 31"
    using x B by (intro mult_strict_mono) simp_all
  then have m: "(unat x * ?B) mod 2 ^ 64 = unat x * ?B" by simp
  have q31: "unat x * ?B div 2 ^ 32 < 2 ^ 31" using q B by linarith
  have "sint (word_of_int (int (unat x * ?B div 2 ^ 32)) :: 32 word)
      = int (unat x * ?B div 2 ^ 32)"
  proof (subst int_word_sint)
    have "int (unat x * ?B div 2 ^ 32) < 2 ^ 31"
      using of_nat_less_iff [of "unat x * ?B div 2 ^ 32" "2 ^ 31", where ?'a = int] q31
      by simp
    then show "(int (unat x * ?B div 2 ^ 32) + 2 ^ (LENGTH(32) - 1)) mod 2 ^ LENGTH(32)
        - 2 ^ (LENGTH(32) - 1) = int (unat x * ?B div 2 ^ 32)"
      by simp
  qed
  then have "sint (word_of_nat (unat x * ?B div 2 ^ 32) :: 32 word)
      = int (unat x * ?B div 2 ^ 32)"
    by simp
  moreover have "int (unat x * ?B div 2 ^ 32) < bins"
    using q by (simp only: zless_nat_eq_int_zless)
  ultimately show "chi_bin x bins (2 ^ 32) = int (unat x * nat bins div 2 ^ 32)"
    unfolding chi_bin_def m Let_def by simp
qed


lemma chi_freq_Suc:
  "chi_freq data (Suc k) bins mv =
     (let freq = chi_freq data k bins mv; idx = nat (chi_bin (data ! k) bins mv)
      in freq[idx := freq ! idx + 1])"
  by (simp add: chi_freq_def Let_def)

lemma chi_freq_counts:
  assumes "1 \<le> bins" and "bins < 2 ^ 31"
  shows "chi_freq data k bins (2 ^ 32) = map (bin_count data k (nat bins)) [0..<nat bins]"
proof (induction k)
  case 0
  show ?case
    by (simp add: chi_freq_def bin_count_def list_eq_iff_nth_eq)
next
  case (Suc k)
  let ?B = "nat bins"
  let ?q = "unat (data ! k) * ?B div 2 ^ 32"
  have idx: "nat (chi_bin (data ! k) bins (2 ^ 32)) = ?q"
    using chi_bin_2_32(1) [OF assms] by simp
  have q: "?q < ?B" by (rule chi_bin_2_32(2) [OF assms])
  then have mq: "min ?q (?B - 1) = ?q" by simp
  have step: "bin_count data (Suc k) ?B b = bin_count data k ?B b + (if ?q = b then 1 else 0)" for b
  proof -
    let ?P = "\<lambda>i. min (unat (data ! i) * ?B div 2 ^ 32) (?B - 1) = b"
    have "{i. i < Suc k \<and> ?P i} = {i. i < k \<and> ?P i} \<union> (if ?q = b then {k} else {})"
      using mq by (auto simp add: less_Suc_eq)
    moreover have "{i. i < k \<and> ?P i} \<inter> (if ?q = b then {k} else {}) = {}"
      by auto
    ultimately have "card {i. i < Suc k \<and> ?P i}
        = card {i. i < k \<and> ?P i} + card (if ?q = b then {k} else {})"
      by (simp add: card_Un_disjoint)
    then show ?thesis by (simp add: bin_count_def)
  qed
  show ?case
    unfolding chi_freq_Suc Suc.IH idx Let_def
    using q by (auto simp add: list_eq_iff_nth_eq nth_list_update step)
qed

lemma chi_sum_Suc:
  "chi_sum freq e (Suc B) = chi_sum_step freq e B (chi_sum freq e B)"
  by (simp add: chi_sum_def)

lemma chi_sum_eq:
  assumes "e \<noteq> 0"
  shows "chi_sum freq e B = Some (\<Sum>b<B. (real (freq ! b) - e)\<^sup>2 / e)"
proof (induction B)
  case 0
  show ?case by (simp add: chi_sum_def)
next
  case (Suc B)
  show ?case
    unfolding chi_sum_Suc Suc.IH using assms
    by (simp add: chi_sum_step_def Let_def fdiv_def power2_eq_square)
qed

text \<open>
  Claim C6. For \<open>n\<close> samples, a bin count \<open>1 \<le> B \<le> n\<close> (both C \<^verbatim>\<open>int\<close>) and the maximum value
  \<open>R = 2^32\<close>, \<open>chi_squared\<close> maps each sample \<open>x\<close> to the bin \<open>\<lfloor>x * B / R\<rfloor>\<close> clamped to
  \<open>B - 1\<close>, and returns the sum over the bins of \<open>(observed - n/B)^2 / (n/B)\<close>; on a
  histogram in which every bin holds exactly \<open>n/B\<close> samples it returns 0.
\<close>

theorem chi_squared_statistic:
  assumes "1 \<le> bins" and "bins < 2 ^ 31" and "bins \<le> n" and "n < 2 ^ 31"
    and "nat n \<le> length data"
  shows "(\<forall>i<nat n. chi_bin (data ! i) bins (2 ^ 32)
            = int (min (unat (data ! i) * nat bins div 2 ^ 32) (nat bins - 1)))
    \<and> chi_squared data n bins (2 ^ 32)
        = Some (\<Sum>b<nat bins. (real (bin_count data (nat n) (nat bins) b)
                   - real_of_int n / real_of_int bins)\<^sup>2 / (real_of_int n / real_of_int bins))
    \<and> ((\<forall>b<nat bins. real (bin_count data (nat n) (nat bins) b) = real_of_int n / real_of_int bins)
          \<longrightarrow> chi_squared data n bins (2 ^ 32) = Some 0)"
proof -
  let ?B = "nat bins" and ?e = "real_of_int n / real_of_int bins"
  have e: "?e \<noteq> 0" using assms by simp
  have bin: "chi_bin x bins (2 ^ 32) = int (min (unat x * ?B div 2 ^ 32) (?B - 1))" for x
    using chi_bin_2_32 [OF assms(1,2), of x] by simp
  have nonneg: "\<not> list_ex (\<lambda>i. chi_bin (data ! i) bins (2 ^ 32) < 0) [0..<nat n]"
    unfolding list_ex_iff bin by simp
  have "chi_squared data n bins (2 ^ 32)
      = chi_sum (map (bin_count data (nat n) ?B) [0..<?B]) ?e ?B"
    unfolding chi_squared_def Let_def chi_freq_counts [OF assms(1,2)]
    using assms nonneg by simp
  also have "\<dots> = Some (\<Sum>b<?B. (real (map (bin_count data (nat n) ?B) [0..<?B] ! b) - ?e)\<^sup>2 / ?e)"
    by (rule chi_sum_eq [OF e])
  also have "(\<Sum>b<?B. (real (map (bin_count data (nat n) ?B) [0..<?B] ! b) - ?e)\<^sup>2 / ?e)
      = (\<Sum>b<?B. (real (bin_count data (nat n) ?B b) - ?e)\<^sup>2 / ?e)"
    by (rule sum.cong) simp_all
  finally have main: "chi_squared data n bins (2 ^ 32)
      = Some (\<Sum>b<?B. (real (bin_count data (nat n) ?B b) - ?e)\<^sup>2 / ?e)" .
  have "(\<Sum>b<?B. (real (bin_count data (nat n) ?B b) - ?e)\<^sup>2 / ?e) = 0"
    if "\<forall>b<?B. real (bin_count data (nat n) ?B b) = ?e"
    using that by (intro sum.neutral) simp
  with main bin show ?thesis by simp
qed


lemma chi_bin_example:
  "chi_bin 2147483648 2 4294967296 = 1" "chi_bin 0 2 4294967296 = 0"
  by (simp_all add: chi_bin_def)

lemma chi_freq_example: "chi_freq [0, 0x80000000] 2 2 (2 ^ 32) = [1, 1]"
proof -
  have "replicate 2 (0 :: nat) = [0, 0]"
    by (simp add: numeral_2_eq_2)
  then show ?thesis
    by (simp add: chi_freq_def chi_bin_example upt_rec)
qed

theorem chi_squared_statistic_witness:
  "chi_squared [0, 0x80000000] 2 2 (2 ^ 32) = Some 0"
proof -
  let ?d = "[0, 0x80000000 :: u32]"
  have h: "(1 :: int) \<le> 2" "(2 :: int) < 2 ^ 31" "(2 :: int) \<le> 2" "nat 2 \<le> length ?d"
    by simp_all
  have "map (bin_count ?d (nat 2) (nat 2)) [0..<nat 2] = [1, 1]"
    using chi_freq_counts [OF h(1,2), of ?d "nat 2"] chi_freq_example by simp
  then have "bin_count ?d (nat 2) (nat 2) 0 = 1 \<and> bin_count ?d (nat 2) (nat 2) 1 = 1"
    by (simp add: upt_rec)
  then have u: "\<forall>b<nat 2. real (bin_count ?d (nat 2) (nat 2) b) = real_of_int 2 / real_of_int 2"
    by (simp add: less_Suc_eq numeral_2_eq_2)
  from chi_squared_statistic [OF h(1,2,3,2,4)] u
  show "chi_squared ?d 2 2 (2 ^ 32) = Some 0"
    by blast
qed

section \<open>Runs test\<close>

lemma runs_walk_Suc:
  "runs_walk w (Suc (Suc k)) = runs_step w (Suc k) (runs_walk w (Suc k))"
  by (simp add: runs_walk_def Let_def)

lemma runs_count_Suc:
  "runs_count w (Suc (Suc k)) =
     runs_count w (Suc k) + (if bit_at w k = bit_at w (Suc k) then 0 else 1)"
proof -
  have "map (bit_at w) [0..<Suc (Suc k)] = map (bit_at w) [0..<k] @ [bit_at w k, bit_at w (Suc k)]"
    by simp
  moreover have "map (bit_at w) [0..<Suc k] = map (bit_at w) [0..<k] @ [bit_at w k]"
    by simp
  ultimately show ?thesis
    unfolding runs_count_def by (simp only: remdups_adj_append_two) simp
qed

lemma runs_walk_eq:
  "runs_walk w (Suc k) =
     (int (ones_count w (Suc k)), int (bit_at w k), int (runs_count w (Suc k)))"
proof (induction k)
  case 0
  show ?case
    by (simp add: runs_walk_def first_bit ones_count_def runs_count_def Let_def)
next
  case (Suc k)
  show ?case
    unfolding runs_walk_Suc Suc.IH
    by (simp add: runs_step_def Let_def ones_count_def runs_count_Suc)
qed

lemma runs_count_le: "runs_count w n \<le> n"
  using remdups_adj_length [of "map (bit_at w) [0..<n]"] by (simp add: runs_count_def)

lemma ones_count_le: "ones_count w n \<le> n"
proof -
  have "(\<Sum>i<n. bit_at w i) \<le> (\<Sum>i<n. 1)"
    by (rule sum_mono) (rule bit_at_le1)
  then show ?thesis by (simp add: ones_count_def)
qed

lemma runs_decide_value:
  assumes "32 \<le> n" and "n < 2 ^ 64" and "ones \<le> n" and "r < 2 ^ 31"
  shows "runs_decide erfc n (int ones) (int r) =
     Some (if runs_precheck n ones then 0
           else if erfc (runs_z n ones r) \<ge> 0.01 then 1 else 0)"
proof -
  define dn where "dn = rnd (real n)"
  define dones where "dones = rnd (real ones)"
  define p where "p = rnd (dones / dn)"
  define root where "root = rnd (sqrt dn)"
  define bound where "bound = rnd (2 / root)"
  define dev where "dev = rnd (p - 1 / 2)"
  have p_eq: "runs_pi n ones = p"
    by (simp add: runs_pi_def p_def dones_def dn_def)
  have pre_eq: "runs_precheck n ones \<longleftrightarrow> \<bar>dev\<bar> > bound"
    by (simp add: runs_precheck_def p_eq dev_def bound_def root_def dn_def)
  have dn: "2 powi 5 \<le> dn" "dn \<le> 2 powi 64"
  proof -
    show "2 powi 5 \<le> dn"
      unfolding dn_def by (rule rnd_ge_pow2) (use assms(1) in simp_all)
    show "dn \<le> 2 powi 64"
      unfolding dn_def by (rule rnd_le_pow2) (use assms(2) in simp_all)
  qed
  then have dn': "32 \<le> dn" "dn \<le> 2 ^ 64"
    by simp_all
  have d_dn: "dbl (real n) = Some dn"
    unfolding dn_def by (rule dbl_Some_nonneg[where e = 64]) (use assms(2) in simp_all)
  have dones: "0 \<le> dones" "dones \<le> dn"
  proof -
    show "0 \<le> dones"
      unfolding dones_def by (rule rnd_nonneg) simp
    show "dones \<le> dn"
      unfolding dones_def dn_def by (rule rnd_mono) (use assms(3) in simp)
  qed
  have d_dones: "dbl (real ones) = Some dones"
    unfolding dones_def
    by (rule dbl_Some_nonneg[where e = 64]) (use assms(2,3) in simp_all)
  have q01: "0 \<le> dones / dn" "dones / dn \<le> 2 powi 0"
    using dones dn' by simp_all
  have p: "0 \<le> p" "p \<le> 1"
  proof -
    show "0 \<le> p"
      unfolding p_def using q01(1) by (rule rnd_nonneg)
    have "p \<le> 2 powi 0"
      unfolding p_def using q01(2) by (rule rnd_le_pow2) simp
    then show "p \<le> 1"
      by simp
  qed
  have d_p: "ddiv dones dn = Some p"
    using dbl_Some_nonneg[OF q01] dn' by (simp add: ddiv_def p_def)
  have "(11 / 2)\<^sup>2 \<le> dn"
    using dn'(1) by (simp add: power2_eq_square)
  then have "sqrt ((11 / 2)\<^sup>2) \<le> sqrt dn"
    by (rule real_sqrt_le_mono)
  then have sq_lo: "of_int 11 * 2 powi (- 1) \<le> sqrt dn"
    by (simp add: power_int_minus_divide)
  have "sqrt dn \<le> sqrt ((2 ^ 32)\<^sup>2)"
    using dn'(2) by (intro real_sqrt_le_mono) simp
  then have sq_hi: "sqrt dn \<le> 2 powi 32"
    by (simp only: real_sqrt_abs) simp
  have root: "11 / 2 \<le> root" "root \<le> 2 powi 32"
  proof -
    have "of_int 11 * 2 powi (- 1) \<le> root"
      unfolding root_def using sq_lo by (rule rnd_ge) simp_all
    then show "11 / 2 \<le> root"
      by (simp add: power_int_minus_divide)
    show "root \<le> 2 powi 32"
      unfolding root_def using sq_hi by (rule rnd_le_pow2) simp
  qed
  have d_root: "dsqrt dn = Some root"
    using dbl_Some_nonneg[OF _ sq_hi] dn' by (simp add: dsqrt_def root_def)
  have b01: "0 \<le> 2 / root" "2 / root \<le> of_int 3 * 2 powi (- 3)"
    using root(1) by (simp_all add: power_int_minus_divide field_simps)
  have bound: "0 \<le> bound" "bound \<le> 3 / 8"
  proof -
    show "0 \<le> bound"
      unfolding bound_def using b01(1) by (rule rnd_nonneg)
    have "bound \<le> of_int 3 * 2 powi (- 3)"
      unfolding bound_def using b01(2) by (rule rnd_le) simp_all
    then show "bound \<le> 3 / 8"
      by (simp add: power_int_minus_divide)
  qed
  have "2 / root \<le> 2 powi 0"
    using b01(2) by (simp add: power_int_minus_divide)
  from dbl_Some_nonneg[OF b01(1) this]
  have d_bound: "ddiv 2 root = Some bound"
    using root(1) by (simp add: ddiv_def bound_def)
  have "\<bar>p - 1 / 2\<bar> \<le> 2 powi 0"
    using p by simp
  then have d_dev: "dsub p (1 / 2) = Some dev"
    using dbl_Some[of "p - 1 / 2" 0] by (simp add: dsub_def dev_def)
  show ?thesis
  proof (cases "\<bar>dev\<bar> > bound")
    case True
    then show ?thesis
      by (simp add: runs_decide_def d_dn d_dones d_p d_root d_bound d_dev pre_eq)
  next
    case False
    define omp where "omp = rnd (1 - p)"
    define n2 where "n2 = rnd (2 * dn)"
    define t where "t = rnd (n2 * p)"
    define expRuns where "expRuns = rnd (t * omp)"
    define num where "num = rnd (real r - expRuns)"
    define root2 where "root2 = rnd (sqrt n2)"
    define u1 where "u1 = rnd (2 * root2)"
    define u2 where "u2 = rnd (u1 * p)"
    define den where "den = rnd (u2 * omp)"
    define z where "z = rnd (\<bar>num\<bar> / den)"
    have z_eq: "runs_z n ones r = z"
      by (simp add: runs_z_def Let_def p_eq z_def num_def expRuns_def t_def n2_def omp_def
          den_def u2_def u1_def root2_def dn_def)
    have dev: "\<bar>dev\<bar> \<le> 3 / 8"
      using False bound(2) by linarith
    have p_lo: "1 / 16 \<le> p"
    proof (rule ccontr)
      assume "\<not> 1 / 16 \<le> p"
      then have "p - 1 / 2 \<le> of_int (- 7) * 2 powi (- 4)"
        by (simp add: power_int_minus_divide)
      then have "rnd (p - 1 / 2) \<le> of_int (- 7) * 2 powi (- 4)"
        by (rule rnd_le) simp_all
      then show False
        using dev by (simp add: dev_def power_int_minus_divide)
    qed
    have p_hi: "p \<le> 15 / 16"
    proof (rule ccontr)
      assume "\<not> p \<le> 15 / 16"
      then have "of_int 7 * 2 powi (- 4) \<le> p - 1 / 2"
        by (simp add: power_int_minus_divide)
      then have "of_int 7 * 2 powi (- 4) \<le> rnd (p - 1 / 2)"
        by (rule rnd_ge) simp_all
      then show False
        using dev by (simp add: dev_def power_int_minus_divide)
    qed
    have o1: "2 powi (- 4) \<le> 1 - p" "1 - p \<le> 2 powi 0"
      using p_hi p(1) by (simp_all add: power_int_minus_divide)
    have omp: "1 / 16 \<le> omp" "omp \<le> 1"
    proof -
      have "2 powi (- 4) \<le> omp"
        unfolding omp_def using o1(1) by (rule rnd_ge_pow2) simp
      then show "1 / 16 \<le> omp"
        by (simp add: power_int_minus_divide)
      have "omp \<le> 2 powi 0"
        unfolding omp_def using o1(2) by (rule rnd_le_pow2) simp
      then show "omp \<le> 1"
        by simp
    qed
    have d_omp: "dsub 1 p = Some omp"
      using dbl_Some[of "1 - p" 0] o1 p by (simp add: dsub_def omp_def)
    have n2x: "2 powi 6 \<le> 2 * dn" "2 * dn \<le> 2 powi 65"
      using dn' by simp_all
    have n2: "64 \<le> n2" "n2 \<le> 2 ^ 65"
    proof -
      have "2 powi 6 \<le> n2"
        unfolding n2_def using n2x(1) by (rule rnd_ge_pow2) simp
      then show "64 \<le> n2"
        by simp
      have "n2 \<le> 2 powi 65"
        unfolding n2_def using n2x(2) by (rule rnd_le_pow2) simp
      then show "n2 \<le> 2 ^ 65"
        by simp
    qed
    have d_n2: "dmul 2 dn = Some n2"
      using dbl_Some_nonneg[OF _ n2x(2)] dn' by (simp add: dmul_def n2_def)
    have tx: "0 \<le> n2 * p" "n2 * p \<le> 2 powi 65"
    proof -
      show "0 \<le> n2 * p"
        using n2(1) p(1) by simp
      have "n2 * p \<le> n2 * 1"
        using n2(1) p(2) by (intro mult_left_mono) simp_all
      then show "n2 * p \<le> 2 powi 65"
        using n2(2) by simp
    qed
    have t: "0 \<le> t" "t \<le> 2 ^ 65"
    proof -
      show "0 \<le> t"
        unfolding t_def using tx(1) by (rule rnd_nonneg)
      have "t \<le> 2 powi 65"
        unfolding t_def using tx(2) by (rule rnd_le_pow2) simp
      then show "t \<le> 2 ^ 65"
        by simp
    qed
    have d_t: "dmul n2 p = Some t"
      using dbl_Some_nonneg[OF tx] by (simp add: dmul_def t_def)
    have ex: "0 \<le> t * omp" "t * omp \<le> 2 powi 65"
    proof -
      show "0 \<le> t * omp"
        using t(1) omp(1) by simp
      have "t * omp \<le> t * 1"
        using t(1) omp(2) by (intro mult_left_mono) simp_all
      then show "t * omp \<le> 2 powi 65"
        using t(2) by simp
    qed
    have expRuns: "0 \<le> expRuns" "expRuns \<le> 2 ^ 65"
    proof -
      show "0 \<le> expRuns"
        unfolding expRuns_def using ex(1) by (rule rnd_nonneg)
      have "expRuns \<le> 2 powi 65"
        unfolding expRuns_def using ex(2) by (rule rnd_le_pow2) simp
      then show "expRuns \<le> 2 ^ 65"
        by simp
    qed
    have d_exp: "dmul t omp = Some expRuns"
      using dbl_Some_nonneg[OF ex] by (simp add: dmul_def expRuns_def)
    have "real r \<le> real (2 ^ 31)"
      using assms(4) by (intro of_nat_mono) simp
    then have "real r \<le> 2 ^ 31"
      by simp
    then have nx: "\<bar>real r - expRuns\<bar> \<le> 2 powi 66"
      using expRuns by simp
    have num: "\<bar>num\<bar> \<le> 2 ^ 66"
    proof -
      have "\<bar>num\<bar> \<le> 2 powi 66"
        unfolding num_def using nx by (rule rnd_abs_le_pow2) simp
      then show ?thesis
        by simp
    qed
    have d_num: "dsub (real r) expRuns = Some num"
      using dbl_Some[OF nx] by (simp add: dsub_def num_def)
    have "8\<^sup>2 \<le> n2"
      using n2(1) by simp
    then have "sqrt (8\<^sup>2) \<le> sqrt n2"
      by (rule real_sqrt_le_mono)
    then have r2_lo: "2 powi 3 \<le> sqrt n2"
      by simp
    have "sqrt n2 \<le> sqrt ((2 ^ 33)\<^sup>2)"
      using n2(2) by (intro real_sqrt_le_mono) simp
    then have r2_hi: "sqrt n2 \<le> 2 powi 33"
      by (simp only: real_sqrt_abs) simp
    have root2: "8 \<le> root2" "root2 \<le> 2 ^ 33"
    proof -
      have "2 powi 3 \<le> root2"
        unfolding root2_def using r2_lo by (rule rnd_ge_pow2) simp
      then show "8 \<le> root2"
        by simp
      have "root2 \<le> 2 powi 33"
        unfolding root2_def using r2_hi by (rule rnd_le_pow2) simp
      then show "root2 \<le> 2 ^ 33"
        by simp
    qed
    have d_root2: "dsqrt n2 = Some root2"
      using dbl_Some_nonneg[OF _ r2_hi] n2(1) by (simp add: dsqrt_def root2_def)
    have u1x: "2 powi 4 \<le> 2 * root2" "2 * root2 \<le> 2 powi 34"
      using root2 by simp_all
    have u1: "16 \<le> u1" "u1 \<le> 2 ^ 34"
    proof -
      have "2 powi 4 \<le> u1"
        unfolding u1_def using u1x(1) by (rule rnd_ge_pow2) simp
      then show "16 \<le> u1"
        by simp
      have "u1 \<le> 2 powi 34"
        unfolding u1_def using u1x(2) by (rule rnd_le_pow2) simp
      then show "u1 \<le> 2 ^ 34"
        by simp
    qed
    have d_u1: "dmul 2 root2 = Some u1"
      using dbl_Some_nonneg[OF _ u1x(2)] root2(1) by (simp add: dmul_def u1_def)
    have u2x: "2 powi 0 \<le> u1 * p" "u1 * p \<le> 2 powi 34"
    proof -
      have "16 * (1 / 16) \<le> u1 * p"
        using u1(1) p_lo by (intro mult_mono) simp_all
      then show "2 powi 0 \<le> u1 * p"
        by simp
      have "u1 * p \<le> u1 * 1"
        using u1(1) p(2) by (intro mult_left_mono) simp_all
      then show "u1 * p \<le> 2 powi 34"
        using u1(2) by simp
    qed
    have u2: "1 \<le> u2" "u2 \<le> 2 ^ 34"
    proof -
      have "2 powi 0 \<le> u2"
        unfolding u2_def using u2x(1) by (rule rnd_ge_pow2) simp
      then show "1 \<le> u2"
        by simp
      have "u2 \<le> 2 powi 34"
        unfolding u2_def using u2x(2) by (rule rnd_le_pow2) simp
      then show "u2 \<le> 2 ^ 34"
        by simp
    qed
    have d_u2: "dmul u1 p = Some u2"
      using dbl_Some_nonneg[OF _ u2x(2)] u2x(1) by (simp add: dmul_def u2_def)
    have dx: "2 powi (- 4) \<le> u2 * omp" "u2 * omp \<le> 2 powi 34"
    proof -
      have "1 * (1 / 16) \<le> u2 * omp"
        using u2(1) omp(1) by (intro mult_mono) simp_all
      then show "2 powi (- 4) \<le> u2 * omp"
        by (simp add: power_int_minus_divide)
      have "u2 * omp \<le> u2 * 1"
        using u2(1) omp(2) by (intro mult_left_mono) simp_all
      then show "u2 * omp \<le> 2 powi 34"
        using u2(2) by simp
    qed
    have den: "1 / 16 \<le> den"
    proof -
      have "2 powi (- 4) \<le> den"
        unfolding den_def using dx(1) by (rule rnd_ge_pow2) simp
      then show ?thesis
        by (simp add: power_int_minus_divide)
    qed
    have "0 \<le> u2 * omp"
      using u2(1) omp(1) by simp
    from dbl_Some_nonneg[OF this dx(2)]
    have d_den: "dmul u2 omp = Some den"
      by (simp add: dmul_def den_def)
    have zx: "0 \<le> \<bar>num\<bar> / den" "\<bar>num\<bar> / den \<le> 2 powi 70"
    proof -
      show "0 \<le> \<bar>num\<bar> / den"
        using den by simp
      have "\<bar>num\<bar> / den \<le> 2 ^ 66 / (1 / 16)"
        using num den by (intro frac_le) simp_all
      then show "\<bar>num\<bar> / den \<le> 2 powi 70"
        by simp
    qed
    have d_z: "ddiv \<bar>num\<bar> den = Some z"
      using dbl_Some_nonneg[OF zx] den by (simp add: ddiv_def z_def)
    show ?thesis
      using False
      by (simp add: runs_decide_def d_dn d_dones d_p d_root d_bound d_dev pre_eq
          d_n2 d_t d_omp d_exp d_num d_root2 d_u1 d_u2 d_den d_z z_eq)
  qed
qed

lemma runs_value:
  assumes "1 \<le> len" and "len \<le> length w" and "len < 2 ^ 59"
    and "runs_count w (32 * len) < 2 ^ 31"
  shows "nist_runs erfc w len =
     Some (if runs_precheck (32 * len) (ones_count w (32 * len)) then 0
           else if erfc (runs_z (32 * len) (ones_count w (32 * len)) (runs_count w (32 * len)))
                     \<ge> 0.01
           then 1 else 0)"
proof -
  define n where "n = 32 * len"
  define r where "r = runs_count w n"
  have n: "size_mul32 len = n" "32 \<le> n" "n < 2 ^ 64"
    using assms(1,3) by (simp_all add: size_mul32_def n_def)
  then obtain k where k: "n = Suc k" by (cases n) simp_all
  have walk: "runs_walk w n = (int (ones_count w n), int (bit_at w k), int r)"
    unfolding k r_def by (rule runs_walk_eq)
  have rlt: "\<not> int r \<ge> 2 ^ 31"
    using assms(4) by (simp add: r_def n_def)
  have "nist_runs erfc w len = runs_decide erfc n (int (ones_count w n)) (int r)"
    using assms(1,2) rlt by (simp add: nist_runs_def n(1) walk Let_def)
  also have "\<dots> = Some (if runs_precheck n (ones_count w n) then 0
           else if erfc (runs_z n (ones_count w n) r) \<ge> 0.01 then 1 else 0)"
    using n(2,3) ones_count_le by (rule runs_decide_value) (use assms(4) in \<open>simp add: r_def n_def\<close>)
  finally show ?thesis
    unfolding r_def n_def .
qed

text \<open>
  Claim C3, as the code has it. For a buffer of \<open>len \<ge> 1\<close> words with \<open>n = 32 * len\<close> bits whose
  number of runs is a C \<^verbatim>\<open>int\<close> (as it is whenever \<open>n < 2^31\<close>: there are at most \<open>n\<close> runs),
  with \<open>pi\<close> the double nearest to the proportion of one-bits: if \<open>|pi - 0.5| > 2 / sqrt n\<close>,
  both sides evaluated in binary64 arithmetic, then \<open>nist_runs\<close> returns 0, and no
  operation of the runs statistic is evaluated; otherwise it returns 1 exactly when
  \<open>erfc z \<ge> 0.01\<close>, where \<open>z\<close> is \<open>|runs - 2 n pi (1 - pi)| / (2 sqrt (2 n) pi (1 - pi))\<close>
  evaluated in binary64 arithmetic and \<open>runs\<close> is the number of maximal runs of identical
  consecutive bits; no operation overflows and the divisor is nonzero there.
\<close>

theorem runs_verdict:
  assumes "1 \<le> len" and "len \<le> length w" and "len < 2 ^ 59"
    and "runs_count w (32 * len) < 2 ^ 31"
  shows "nist_runs erfc w len =
     Some (if runs_precheck (32 * len) (ones_count w (32 * len)) then 0
           else if erfc (runs_z (32 * len) (ones_count w (32 * len)) (runs_count w (32 * len)))
                     \<ge> 0.01
           then 1 else 0)"
  using assms by (rule runs_value)

lemma runs_walk_example: "runs_walk [0x0000FFFF] 32 = (16, 0, 2)"
  by code_simp

lemma runs_counts_example:
  "ones_count [0x0000FFFF] 32 = 16" "runs_count [0x0000FFFF] 32 = 2"
  using runs_walk_eq [of "[0x0000FFFF]" 31] runs_walk_example by simp_all

lemma rnd_small_values:
  "rnd 2 = 2" "rnd 4 = 4" "rnd 8 = 8" "rnd 16 = 16" "rnd 32 = 32" "rnd 64 = 64"
  "rnd (- 14) = - 14" "rnd (1 / 2) = 1 / 2" "rnd (7 / 2) = 7 / 2"
  using rnd_int [of 2] rnd_int [of 4] rnd_int [of 8] rnd_int [of 16] rnd_int [of 32]
    rnd_int [of 64] rnd_int [of "- 14"] rnd_pow2 [of "- 1"] rnd_representable [of 7 "- 1"]
  by (simp_all add: power_int_minus_divide)

theorem runs_verdict_witness:
  "nist_runs erfc_real [0x0000FFFF] 1 = Some 0"
proof -
  have s: "sqrt 64 = 8"
    using real_sqrt_abs [of 8] by simp
  have p: "runs_pi 32 16 = 1 / 2"
    by (simp add: runs_pi_def rnd_small_values)
  have "0 \<le> rnd (2 / rnd (sqrt (rnd (real 32))))"
    by (intro rnd_nonneg divide_nonneg_nonneg real_sqrt_ge_zero) simp_all
  then have pre: "\<not> runs_precheck 32 16"
    by (simp add: runs_precheck_def p rnd_0)
  have z: "runs_z 32 16 2 = 7 / 2"
    by (simp add: runs_z_def Let_def p rnd_small_values s)
  have "erfc_real (7 / 2) < 0.01"
    by (rule erfc_real_small) simp
  then show ?thesis
    using runs_verdict [of 1 "[0x0000FFFF]" erfc_real]
    by (simp add: runs_counts_example pre z)
qed

text \<open>
  Claim C3 as stated fails: on an 18-word buffer with 336 one-bits among its 576 bits, in
  280 runs, \<open>|336/576 - 1/2|\<close> and \<open>2 / sqrt 576\<close> are both \<open>1/12\<close>, so that the pre-check of the
  claim does not fire, and its statistic is 0, where the complementary error function
  is 1: the claim predicts 1. In binary64 arithmetic the proportion is rounded up, the
  left side of the comparison is \<open>750599937895083 / 2^53\<close>, above the right side
  \<open>6004799503160661 / 2^56\<close>, and \<open>nist_runs\<close> returns 0.
\<close>

lemma runs_walk_buffer: "runs_walk runs_buffer 576 = (336, 1, 280)"
  by code_simp

lemma runs_counts_buffer:
  "ones_count runs_buffer 576 = 336" "runs_count runs_buffer 576 = 280"
  using runs_walk_eq [of runs_buffer 575] runs_walk_buffer by simp_all

lemma rnd_seven_twelfths: "rnd (7 / 12) = 5254199565265579 / 2 ^ 53"
proof -
  have "rnd (7 / 12) = of_int (round_even (7 / 12 / 2 powi (- 53))) * 2 powi (- 53)"
    by (rule rnd_eval) (simp_all add: power_int_minus_divide)
  also have "round_even (7 / 12 / 2 powi (- 53)) = 5254199565265579"
    by (simp add: round_even_def Let_def power_int_minus_divide)
  finally show ?thesis
    by (simp add: power_int_minus_divide)
qed

lemma rnd_one_twelfth: "rnd (1 / 12) = 6004799503160661 / 2 ^ 56"
proof -
  have "rnd (1 / 12) = of_int (round_even (1 / 12 / 2 powi (- 56))) * 2 powi (- 56)"
    by (rule rnd_eval) (simp_all add: power_int_minus_divide)
  also have "round_even (1 / 12 / 2 powi (- 56)) = 6004799503160661"
    by (simp add: round_even_def Let_def power_int_minus_divide)
  finally show ?thesis
    by (simp add: power_int_minus_divide)
qed

lemma runs_precheck_buffer: "runs_precheck 576 336"
proof -
  have i: "rnd 336 = 336" "rnd 576 = 576" "rnd 24 = 24"
    using rnd_int [of 336] rnd_int [of 576] rnd_int [of 24] by simp_all
  have s: "sqrt 576 = 24"
    using real_sqrt_abs [of 24] by simp
  have p: "runs_pi 576 336 = 5254199565265579 / 2 ^ 53"
    by (simp add: runs_pi_def i rnd_seven_twelfths)
  have "5254199565265579 / 2 ^ 53 - 1 / 2 = real_of_int 750599937895083 * 2 powi (- 53)"
    by (simp add: power_int_minus_divide)
  moreover have "rnd (real_of_int 750599937895083 * 2 powi (- 53))
      = real_of_int 750599937895083 * 2 powi (- 53)"
    by (rule rnd_representable) simp_all
  ultimately have d: "rnd (5254199565265579 / 2 ^ 53 - 1 / 2) = 750599937895083 / 2 ^ 53"
    by (simp add: power_int_minus_divide)
  have b: "rnd (2 / rnd (sqrt (rnd (real 576)))) = 6004799503160661 / 2 ^ 56"
    by (simp add: i s rnd_one_twelfth)
  show ?thesis
    unfolding runs_precheck_def p d b by simp
qed

theorem runs_precheck_rounding:
  "nist_runs erfc_real runs_buffer 18 = Some 0
   \<and> ones_count runs_buffer 576 = 336 \<and> runs_count runs_buffer 576 = 280
   \<and> \<bar>336 / 576 - 1 / 2\<bar> = 2 / sqrt 576
   \<and> erfc_real (\<bar>280 - 2 * 576 * (336 / 576) * (1 - 336 / 576)\<bar>
         / (2 * sqrt (2 * 576) * (336 / 576) * (1 - 336 / 576))) = 1"
proof -
  have s: "sqrt 576 = 24"
    using real_sqrt_abs [of 24] by simp
  have "(1 :: nat) \<le> 18" "18 \<le> length runs_buffer" "(18 :: nat) < 2 ^ 59"
    "runs_count runs_buffer (32 * 18) < 2 ^ 31"
    by (simp_all add: runs_counts_buffer) (simp add: runs_buffer_def)
  from runs_value [OF this, of erfc_real]
  have "nist_runs erfc_real runs_buffer 18 = Some 0"
    by (simp add: runs_counts_buffer runs_precheck_buffer)
  moreover have "\<bar>336 / 576 - 1 / 2\<bar> = 2 / sqrt 576"
    by (simp add: s)
  moreover have "\<bar>280 - 2 * 576 * (336 / 576) * (1 - 336 / 576)\<bar> = (0 :: real)"
    by simp
  ultimately show ?thesis
    by (simp add: runs_counts_buffer erfc_real_0)
qed

section \<open>Cumulative sums: the series\<close>

lemma cusum_series_eq:
  assumes "0 < n" and "e < 2 ^ 31 - 1"
  shows "cusum_series erfc n z k e p =
     Some (p - (\<Sum>j = k..e. erfc ((4 * real_of_int j + 1) * real_of_int z / sqrt (2 * real n))
                       - erfc ((4 * real_of_int j - 1) * real_of_int z / sqrt (2 * real n))))"
proof (induction "nat (e + 1 - k)" arbitrary: k p)
  case 0
  then have "\<not> k \<le> e" by simp
  then show ?case by (subst cusum_series.simps) simp
next
  case (Suc m)
  let ?t = "\<lambda>j. erfc ((4 * real_of_int j + 1) * real_of_int z / sqrt (2 * real n))
                - erfc ((4 * real_of_int j - 1) * real_of_int z / sqrt (2 * real n))"
  from Suc.hyps(2) have ke: "k \<le> e" by simp
  have nz: "sqrt (2 * real n) \<noteq> 0" using assms(1) by simp
  have m: "m = nat (e + 1 - (k + 1))" using Suc.hyps(2) by simp
  have set: "{k..e} = insert k {k + 1..e}" using ke by auto
  have "cusum_series erfc n z k e p = cusum_series erfc n z (k + 1) e (p - ?t k)"
    using ke assms(2) by (subst cusum_series.simps) (simp add: fdiv_Some [OF nz])
  also have "\<dots> = Some (p - ?t k - sum ?t {k + 1..e})"
    by (rule Suc.hyps(1) [OF m])
  also have "p - ?t k - sum ?t {k + 1..e} = p - sum ?t {k..e}"
    unfolding set by (subst sum.insert) simp_all
  finally show ?case .
qed

lemma cusum_range_eq:
  assumes "1 \<le> z" and "z \<le> int n" and "n + 32 \<le> 2 ^ 33"
  shows "cusum_range n z =
     Some (\<lceil>(1 - real n / real_of_int z) / 4\<rceil>, \<lfloor>(real n / real_of_int z - 1) / 4\<rfloor>)"
    and "\<lfloor>(real n / real_of_int z - 1) / 4\<rfloor> < 2 ^ 31 - 1"
    and "\<lceil>(1 - real n / real_of_int z) / 4\<rceil> = - \<lfloor>(real n / real_of_int z - 1) / 4\<rfloor>"
proof -
  define q where "q = real n / real_of_int z"
  have z: "0 < real_of_int z" "real_of_int z \<le> real n"
    using assms(1,2) by linarith+
  then have q1: "1 \<le> q" by (simp add: q_def)
  have "real n \<le> real n * real_of_int z"
    using assms(1) by (simp add: mult_le_cancel_left1)
  then have qn: "q \<le> real n"
    using z by (simp add: q_def field_simps)
  have "real (n + 32) \<le> real (2 ^ 33)"
    using assms(3) by (rule of_nat_mono)
  then have "real n + 32 \<le> 2 ^ 33" by simp
  with qn have hi: "(q - 1) / 4 < 2 ^ 31 - 1" by simp
  have lo: "0 \<le> (q - 1) / 4" using q1 by simp
  have fl: "0 \<le> \<lfloor>(q - 1) / 4\<rfloor>" "\<lfloor>(q - 1) / 4\<rfloor> < 2 ^ 31 - 1"
    using lo hi by (simp_all add: floor_less_iff)
  have neg: "\<lceil>(1 - q) / 4\<rceil> = - \<lfloor>(q - 1) / 4\<rfloor>"
  proof -
    have "(1 - q) / 4 = - ((q - 1) / 4)" by (simp add: field_simps)
    then show ?thesis by (simp only: ceiling_minus)
  qed
  define f where "f = \<lfloor>(q - 1) / 4\<rfloor>"
  have f: "0 \<le> f" "f < 2 ^ 31 - 1" "\<lceil>(1 - q) / 4\<rceil> = - f"
    using fl neg by (simp_all add: f_def)
  have e: "int_of_double ((q - 1) / 4) = Some \<lfloor>(q - 1) / 4\<rfloor>"
    using lo f(1,2) by (simp add: int_of_double_def flip: f_def)
  have "int_of_double ((- q + 1) / 4) = Some \<lceil>(1 - q) / 4\<rceil>"
  proof (cases "q = 1")
    case True
    then show ?thesis by (simp add: int_of_double_def)
  next
    case False
    with q1 have "\<not> 0 \<le> (- q + 1) / 4" by simp
    moreover have "(- q + 1) / 4 = (1 - q) / 4" by simp
    ultimately show ?thesis
      using f(1,2) by (simp add: int_of_double_def f(3))
  qed
  then have "cusum_range n z = Some (\<lceil>(1 - q) / 4\<rceil>, \<lfloor>(q - 1) / 4\<rfloor>)"
    using z e by (simp add: cusum_range_def fdiv_def flip: q_def)
  then show "cusum_range n z =
     Some (\<lceil>(1 - real n / real_of_int z) / 4\<rceil>, \<lfloor>(real n / real_of_int z - 1) / 4\<rfloor>)"
    unfolding q_def .
  show "\<lfloor>(real n / real_of_int z - 1) / 4\<rfloor> < 2 ^ 31 - 1"
    using fl(2) unfolding q_def .
  show "\<lceil>(1 - real n / real_of_int z) / 4\<rceil> = - \<lfloor>(real n / real_of_int z - 1) / 4\<rfloor>"
    using neg unfolding q_def .
qed

text \<open>
  Claim C1, as the code has it. For a buffer of \<open>len \<ge> 1\<close> words (\<open>len < 2^28\<close>, so that both
  loop bounds are C \<^verbatim>\<open>int\<close>s), with \<open>n = 32 * len\<close> and \<open>zmax\<close> the largest absolute value of
  a prefix sum: \<open>nist_cumulative_sums\<close> sums the \<open>erfc\<close> terms over the integers from
  \<open>start\<close>, the truncation toward zero of \<open>(-n/zmax + 1) / 4\<close> (its ceiling, since the value
  is not positive; equal to \<open>-end\<close>), to \<open>end = \<lfloor>(n/zmax - 1) / 4\<rfloor>\<close>, computes
  \<open>p = 1 - \<Sum> (erfc a_k - erfc b_k)\<close> and returns 1 exactly when \<open>p \<ge> 0.01\<close>.
\<close>

theorem cusum_verdict:
  assumes "1 \<le> len" and "len \<le> length w" and "len < 2 ^ 28"
  shows "cusum_zmax w len = Max ((\<lambda>j. \<bar>prefix_sum w j\<bar>) ` {0..32 * len})
    \<and> cusum_range (32 * len) (cusum_zmax w len)
        = Some (\<lceil>(1 - real (32 * len) / real_of_int (cusum_zmax w len)) / 4\<rceil>,
                \<lfloor>(real (32 * len) / real_of_int (cusum_zmax w len) - 1) / 4\<rfloor>)
    \<and> \<lceil>(1 - real (32 * len) / real_of_int (cusum_zmax w len)) / 4\<rceil>
        = - \<lfloor>(real (32 * len) / real_of_int (cusum_zmax w len) - 1) / 4\<rfloor>
    \<and> nist_cumulative_sums erfc w len
        = Some (if cusum_p erfc (32 * len) (cusum_zmax w len) \<ge> 0.01 then 1 else 0)"
proof -
  define n where "n = 32 * len"
  define z where "z = cusum_zmax w len"
  have n: "size_mul32 len = n" "0 < n" "n + 32 \<le> 2 ^ 33"
    using assms by (simp_all add: size_mul32_def n_def)
  have zw: "z = snd (cusum_walk w n)"
    by (simp add: z_def cusum_zmax_def n(1))
  have z1: "1 \<le> z" unfolding zw using n(2) by (intro cusum_zmax_ge1) simp
  have zn: "z \<le> int n" unfolding zw by (rule cusum_zmax_le)
  note rng = cusum_range_eq [OF z1 zn n(3)]
  have mx: "z = Max ((\<lambda>j. \<bar>prefix_sum w j\<bar>) ` {0..n})"
    by (simp add: zw cusum_walk_eq)
  have ser: "cusum_series erfc n z \<lceil>(1 - real n / real_of_int z) / 4\<rceil>
        \<lfloor>(real n / real_of_int z - 1) / 4\<rfloor> 1 = Some (cusum_p erfc n z)"
    unfolding cusum_p_def by (rule cusum_series_eq [OF n(2) rng(2)])
  have "nist_cumulative_sums erfc w len = Some (if cusum_p erfc n z \<ge> 0.01 then 1 else 0)"
    using assms(2) z1
    by (simp add: nist_cumulative_sums_def n(1) Let_def rng(1) ser flip: zw)
  with mx rng(1,3) show ?thesis
    unfolding n_def z_def by simp
qed

lemma cusum_walk_example: "cusum_walk [0x0000FFFF] 32 = (0, 16)"
  by code_simp

text \<open>
  Claim C1 as stated fails: on the one-word buffer \<open>0x0000FFFF\<close> (sixteen one-bits, then
  sixteen zero-bits) the excursion is 16, the floor of \<open>(-32/16 + 1) / 4 = -1/4\<close> is \<open>-1\<close>,
  and the loop starts at 0.
\<close>

theorem cusum_start_not_floor:
  "cusum_zmax [0x0000FFFF] 1 = 16
    \<and> spec_cusum_start (size_mul32 1) (cusum_zmax [0x0000FFFF] 1) = - 1
    \<and> map_option fst (cusum_range (size_mul32 1) (cusum_zmax [0x0000FFFF] 1)) = Some 0"
proof -
  have z: "cusum_zmax [0x0000FFFF] 1 = 16"
    by (simp add: cusum_zmax_def size_mul32_def cusum_walk_example)
  have "map_option fst (cusum_range (size_mul32 1) 16) = Some 0"
    by (simp add: cusum_range_def size_mul32_def fdiv_def int_of_double_def ceiling_def)
  moreover have "spec_cusum_start (size_mul32 1) 16 = - 1"
    by (simp add: spec_cusum_start_def size_mul32_def)
  ultimately show ?thesis unfolding z by simp
qed

theorem cusum_verdict_witness:
  "cusum_zmax [0x0000FFFF] 1 = 16
    \<and> cusum_range (32 * 1) (cusum_zmax [0x0000FFFF] 1) = Some (0, 0)
    \<and> nist_cumulative_sums erfc_real [0x0000FFFF] 1 = Some 1"
proof -
  have z: "cusum_zmax [0x0000FFFF] 1 = 16"
    by (simp add: cusum_zmax_def size_mul32_def cusum_walk_example)
  have s: "sqrt 64 = 8"
    using real_sqrt_abs [of 8] by simp
  have "erfc_real 2 < 0.01"
    by (rule erfc_real_small) simp
  then have e: "0.01 \<le> 1 - (erfc_real 2 - erfc_real (- 2))"
    by (simp add: erfc_real_minus)
  have p: "cusum_p erfc_real (32 * 1) 16 = 1 - (erfc_real 2 - erfc_real (- 2))"
    by (simp add: cusum_p_def s ceiling_def)
  have h: "(1 :: nat) \<le> 1" "1 \<le> length [0x0000FFFF :: u32]" "(1 :: nat) < 2 ^ 28"
    by simp_all
  from cusum_verdict [OF h, of erfc_real]
  have r: "cusum_range (32 * 1) (cusum_zmax [0x0000FFFF] 1)
        = Some (\<lceil>(1 - real (32 * 1) / real_of_int (cusum_zmax [0x0000FFFF] 1)) / 4\<rceil>,
                \<lfloor>(real (32 * 1) / real_of_int (cusum_zmax [0x0000FFFF] 1) - 1) / 4\<rfloor>)"
    and v: "nist_cumulative_sums erfc_real [0x0000FFFF] 1
        = Some (if cusum_p erfc_real (32 * 1) (cusum_zmax [0x0000FFFF] 1) \<ge> 0.01 then 1 else 0)"
    by blast+
  have "cusum_range (32 * 1) (cusum_zmax [0x0000FFFF] 1) = Some (0, 0)"
    unfolding r unfolding z by (simp add: ceiling_def)
  moreover have "nist_cumulative_sums erfc_real [0x0000FFFF] 1 = Some 1"
    unfolding v unfolding z p using e by simp
  ultimately show ?thesis using z by simp
qed

section \<open>Monobit test\<close>

lemma card_bits_step:
  fixes x :: u32
  shows "card {i. bit x i} = (if bit x 0 then 1 else 0) + card {i. bit (drop_bit 1 x) i}"
proof -
  have fin: "finite {i. bit x i}" "finite {i. bit (drop_bit 1 x) i}"
    by simp_all
  have "{i. bit x i} = (if bit x 0 then {0} else {}) \<union> Suc ` {i. bit (drop_bit 1 x) i}"
  proof (intro set_eqI iffI)
    fix i assume "i \<in> {i. bit x i}"
    then show "i \<in> (if bit x 0 then {0} else {}) \<union> Suc ` {i. bit (drop_bit 1 x) i}"
      by (cases i) (auto simp add: bit_drop_bit_eq)
  next
    fix i assume "i \<in> (if bit x 0 then {0} else {}) \<union> Suc ` {i. bit (drop_bit 1 x) i}"
    then show "i \<in> {i. bit x i}"
      by (auto simp add: bit_drop_bit_eq split: if_splits)
  qed
  moreover have "(if bit x 0 then {0} else {}) \<inter> Suc ` {i. bit (drop_bit 1 x) i} = {}"
    by auto
  ultimately have "card {i. bit x i} =
      card (if bit x 0 then {0 :: nat} else {}) + card (Suc ` {i. bit (drop_bit 1 x) i})"
    using fin by (simp add: card_Un_disjoint)
  also have "card (Suc ` {i. bit (drop_bit 1 x) i}) = card {i. bit (drop_bit 1 x) i}"
    by (rule card_image) simp
  finally show ?thesis by simp
qed

lemma and_1_bit: "uint ((x :: u32) AND 1) = (if bit x 0 then 1 else 0)"
  by (simp add: and_one_eq mod_2_eq_odd bit_0)

lemma and_1_bit_nat: "unat ((x :: u32) AND 1) = (if bit x 0 then 1 else 0)"
  by (simp add: and_one_eq mod_2_eq_odd bit_0)

lemma popcount32_loop_eq: "popcount32_loop x c = c + int (card {i. bit x i})"
proof (induction x c rule: popcount32_loop.induct)
  case (1 x count)
  show ?case
  proof (cases "x = 0")
    case True
    have "card (Collect (bot :: nat \<Rightarrow> bool)) = 0" by (simp add: bot_fun_def)
    with True show ?thesis by (subst popcount32_loop.simps) simp
  next
    case False
    have "popcount32_loop x count = popcount32_loop (drop_bit 1 x) (count + uint (x AND 1))"
      using False by (subst popcount32_loop.simps) simp
    also have "\<dots> = count + uint (x AND 1) + int (card {i. bit (drop_bit 1 x) i})"
      using False by (rule "1.IH")
    also have "\<dots> = count + int (card {i. bit x i})"
      by (simp add: and_1_bit card_bits_step [of x])
    finally show ?thesis .
  qed
qed

lemma popcount32_eq: "popcount32 x = int (card {i. bit x i})"
  by (simp add: popcount32_def popcount32_loop_eq)

lemma bit_at_block:
  assumes "j < 32"
  shows "bit_at w (32 * k + j) = (if bit (w ! k) j then 1 else 0)"
proof -
  have "(32 * k + j) div 32 = k" "(32 * k + j) mod 32 = j"
    using assms by simp_all
  then show ?thesis
    by (simp add: bit_at_def and_1_bit_nat bit_drop_bit_eq)
qed


lemma card_bits_sum: "card {j. bit (x :: u32) j} = (\<Sum>j<32. if bit x j then 1 else 0)"
proof -
  have "{j. bit x j} = {j \<in> {..<32}. bit x j}"
    using bit_imp_le_length [of x] by fastforce
  then have "card {j. bit x j} = sum (\<lambda>j. 1) {j \<in> {..<32}. bit x j}"
    by simp
  also have "\<dots> = (\<Sum>j<32. if bit x j then 1 else 0)"
    by (rule sum.inter_filter) simp
  finally show ?thesis .
qed

lemma word_ones: "card {j. bit (w ! k) j} = (\<Sum>i = k * 32..<k * 32 + 32. bit_at w i)"
proof -
  have "(\<Sum>i = k * 32..<k * 32 + 32. bit_at w i) = (\<Sum>j<32. bit_at w (32 * k + j))"
    by (rule sum.reindex_bij_witness [of _ "\<lambda>j. 32 * k + j" "\<lambda>i. i - 32 * k"]) auto
  also have "\<dots> = (\<Sum>j<32. if bit (w ! k) j then 1 else 0)"
    by (rule sum.cong) (simp_all add: bit_at_block)
  finally show ?thesis by (simp add: card_bits_sum)
qed

lemma monobit_ones_Suc:
  "monobit_ones w (Suc k) = monobit_ones w k + popcount32 (w ! k)"
  by (simp add: monobit_ones_def)

lemma monobit_ones_words: "monobit_ones w len = int (\<Sum>k<len. card {j. bit (w ! k) j})"
  by (induction len) (simp_all add: monobit_ones_Suc popcount32_eq, simp add: monobit_ones_def)

lemma ones_count_words: "ones_count w (32 * len) = (\<Sum>k<len. card {j. bit (w ! k) j})"
proof -
  have "(\<Sum>k<len. card {j. bit (w ! k) j}) = (\<Sum>k<len. \<Sum>i = k * 32..<k * 32 + 32. bit_at w i)"
    by (simp add: word_ones)
  also have "\<dots> = (\<Sum>i<len * 32. bit_at w i)"
    by (rule sum.nat_group)
  finally show ?thesis by (simp add: ones_count_def mult.commute)
qed

lemma monobit_ones_eq: "monobit_ones w len = int (ones_count w (32 * len))"
  by (simp add: monobit_ones_words ones_count_words)

lemma card_bits_zero: "card {j. bit (0 :: u32) j} = 0"
  by (simp add: bot_fun_def)

lemma popcount32_examples:
  "popcount32 0xFFFFFFFF = 32" "popcount32 0xAAAAAAAA = 16" "popcount32 0x55555555 = 16"
  by (simp_all add: popcount32_def popcount32_loop.simps)

lemma card_bits_examples:
  "card {j. bit (0xFFFFFFFF :: u32) j} = 32"
  "card {j. bit (0xAAAAAAAA :: u32) j} = 16" "card {j. bit (0x55555555 :: u32) j} = 16"
  using popcount32_examples by (simp_all add: popcount32_eq)

lemma sqrt_half_bits:
  assumes "1 \<le> len"
  shows "real (32 * len) / sqrt (real (32 * len)) / sqrt 2 = sqrt (real (16 * len))"
    and "4 \<le> sqrt (real (16 * len))"
proof -
  have "real (32 * len) / sqrt (real (32 * len)) = sqrt (real (32 * len))"
    by (rule real_div_sqrt) simp
  also have "sqrt (real (32 * len)) / sqrt 2 = sqrt (real (32 * len) / 2)"
    by (rule real_sqrt_divide [symmetric])
  also have "real (32 * len) / 2 = real (16 * len)"
    by simp
  finally show "real (32 * len) / sqrt (real (32 * len)) / sqrt 2 = sqrt (real (16 * len))" .
  have "16 \<le> real (16 * len)" using assms by simp
  then show "4 \<le> sqrt (real (16 * len))"
    by (intro real_le_rsqrt) simp
qed

text \<open>
  While the bit count \<open>n = 32 * len\<close> is a C \<^verbatim>\<open>int\<close>, \<open>nist_monobit\<close> does what is expected
  of it: it returns 1 exactly when \<open>erfc ((|2 * ones - n| / sqrt n) / sqrt 2) \<ge> 0.01\<close>, where
  \<open>ones\<close> is the number of one-bits among the \<open>n\<close> bits. For an \<open>erfc\<close> that is at least 0.01
  at 0 and below 0.01 from 4 on (as the complementary error function is: \<open>erfc 0 = 1\<close>,
  \<open>erfc 4 < 2 * 10^-8\<close>), it returns 0 on an all-zero and on an all-one buffer, and 1 on a
  buffer with as many one-bits as zero-bits, such as one of alternating bits.
\<close>

lemma monobit_in_range:
  assumes "1 \<le> len" and "len \<le> length w" and "32 * len < 2 ^ 31"
    and "0.01 \<le> erfc 0" and "\<forall>x\<ge>4. erfc x < 0.01"
  shows "nist_monobit erfc w len =
      Some (if erfc (\<bar>2 * real (ones_count w (32 * len)) - real (32 * len)\<bar>
                      / sqrt (real (32 * len)) / sqrt 2) \<ge> 0.01 then 1 else 0)
    \<and> ((\<forall>i<len. w ! i = 0) \<longrightarrow> nist_monobit erfc w len = Some 0)
    \<and> ((\<forall>i<len. w ! i = 0xFFFFFFFF) \<longrightarrow> nist_monobit erfc w len = Some 0)
    \<and> (2 * ones_count w (32 * len) = 32 * len \<longrightarrow> nist_monobit erfc w len = Some 1)
    \<and> ((\<forall>i<len. w ! i = 0xAAAAAAAA \<or> w ! i = 0x55555555)
          \<longrightarrow> nist_monobit erfc w len = Some 1)"
proof -
  define n where "n = 32 * len"
  define c where "c = ones_count w n"
  have n: "32 \<le> n" using assms(1) by (simp add: n_def)
  have im: "int_mul32 len = Some (int n)"
    using assms(3) by (simp add: int_mul32_def n_def)
  have fd: "fdiv \<bar>2 * real c - real n\<bar> (sqrt (real n)) = Some (\<bar>2 * real c - real n\<bar> / sqrt (real n))"
    using n by (intro fdiv_Some) simp
  have main: "nist_monobit erfc w len =
      Some (if erfc (\<bar>2 * real c - real n\<bar> / sqrt (real n) / sqrt 2) \<ge> 0.01 then 1 else 0)"
    using assms(2) by (simp add: nist_monobit_def Let_def monobit_ones_eq im fd flip: n_def c_def)
  have small: "erfc (real n / sqrt (real n) / sqrt 2) < 0.01"
    using sqrt_half_bits [OF assms(1)] assms(5) by (simp add: n_def)
  have words: "c = (\<Sum>k<len. card {j. bit (w ! k) j})"
    unfolding c_def n_def by (rule ones_count_words)
  have zero: "nist_monobit erfc w len = Some 0" if "\<forall>i<len. w ! i = 0"
  proof -
    have "card {j. bit (w ! k) j} = 0" if "k < len" for k
      using that \<open>\<forall>i<len. w ! i = 0\<close> card_bits_zero by metis
    then have "c = 0" unfolding words by simp
    with small show ?thesis by (simp add: main)
  qed
  have ones: "nist_monobit erfc w len = Some 0" if "\<forall>i<len. w ! i = 0xFFFFFFFF"
  proof -
    have "c = (\<Sum>k<len. 32)" unfolding words
      by (rule sum.cong) (use that in \<open>simp_all add: card_bits_examples\<close>)
    then have "c = n" by (simp add: n_def)
    with small show ?thesis by (simp add: main)
  qed
  have bal: "nist_monobit erfc w len = Some 1" if "2 * c = n"
  proof -
    have "2 * real c = real n" using that by (metis of_nat_mult of_nat_numeral)
    with assms(4) show ?thesis by (simp add: main)
  qed
  have alt: "nist_monobit erfc w len = Some 1"
    if "\<forall>i<len. w ! i = 0xAAAAAAAA \<or> w ! i = 0x55555555"
  proof -
    have "c = (\<Sum>k<len. 16)" unfolding words
    proof (rule sum.cong)
      fix k assume "k \<in> {..<len}"
      with that have "w ! k = 0xAAAAAAAA \<or> w ! k = 0x55555555" by simp
      then show "card {j. bit (w ! k) j} = 16"
        using card_bits_examples by metis
    qed simp
    then have "2 * c = n" by (simp add: n_def)
    then show ?thesis by (rule bal)
  qed
  from main zero ones bal alt show ?thesis
    unfolding c_def n_def by blast
qed

lemma monobit_in_range_example:
  "nist_monobit erfc_real [0, 0] 2 = Some 0
    \<and> nist_monobit erfc_real [0xFFFFFFFF] 1 = Some 0
    \<and> nist_monobit erfc_real [0xAAAAAAAA, 0x55555555] 2 = Some 1"
proof -
  have e0: "0.01 \<le> erfc_real 0"
    by (simp add: erfc_real_0)
  have e4: "\<forall>x\<ge>4. erfc_real x < 0.01"
    by (intro allI impI erfc_real_small) simp
  have h2: "(1 :: nat) \<le> 2" "(32 :: nat) * 2 < 2 ^ 31"
    and h1: "(1 :: nat) \<le> 1" "(32 :: nat) * 1 < 2 ^ 31"
    by simp_all
  have "\<forall>i<2. [0, 0 :: u32] ! i = 0"
    by (simp add: less_Suc_eq numeral_2_eq_2)
  moreover have "2 \<le> length [0, 0 :: u32]"
    by simp
  ultimately have a: "nist_monobit erfc_real [0, 0] 2 = Some 0"
    using monobit_in_range [OF h2(1) _ h2(2) e0 e4, of "[0, 0]"] by blast
  have "\<forall>i<1. [0xFFFFFFFF :: u32] ! i = 0xFFFFFFFF"
    by simp
  moreover have "1 \<le> length [0xFFFFFFFF :: u32]"
    by simp
  ultimately have b: "nist_monobit erfc_real [0xFFFFFFFF] 1 = Some 0"
    using monobit_in_range [OF h1(1) _ h1(2) e0 e4, of "[0xFFFFFFFF]"] by blast
  have "\<forall>i<2. [0xAAAAAAAA, 0x55555555 :: u32] ! i = 0xAAAAAAAA
      \<or> [0xAAAAAAAA, 0x55555555 :: u32] ! i = 0x55555555"
    by (simp add: less_Suc_eq numeral_2_eq_2)
  moreover have "2 \<le> length [0xAAAAAAAA, 0x55555555 :: u32]"
    by simp
  ultimately have c: "nist_monobit erfc_real [0xAAAAAAAA, 0x55555555] 2 = Some 1"
    using monobit_in_range [OF h2(1) _ h2(2) e0 e4, of "[0xAAAAAAAA, 0x55555555]"] by blast
  from a b c show ?thesis by simp
qed

text \<open>
  Claim C7. The verdict is the stated one only while \<open>32 * len\<close> is an \<^verbatim>\<open>int\<close>. The source
  computes the bit count as \<^verbatim>\<open>int n = (int)len * 32\<close>, where the other tests compute
  \<^verbatim>\<open>size_t n = len * 32\<close>. On a buffer of \<open>2^26\<close> words \<open>0xAAAAAAAA\<close>, whose \<open>2^31\<close> bits are
  one-bits and zero-bits in equal number, the product overflows: the run has no defined
  result, where a balanced buffer is to pass.
\<close>

theorem monobit_int_overflow:
  "nist_monobit erfc_real (replicate 67108864 0xAAAAAAAA) 67108864 = None
   \<and> 2 * ones_count (replicate 67108864 0xAAAAAAAA) 2147483648 = 2147483648"
proof -
  have "int_mul32 67108864 = None"
    by (simp add: int_mul32_def)
  then have a: "nist_monobit erfc_real (replicate 67108864 0xAAAAAAAA) 67108864 = None"
    by (simp add: nist_monobit_def Let_def)
  have "ones_count (replicate 67108864 0xAAAAAAAA) (32 * 67108864)
      = (\<Sum>k<67108864. card {j. bit (replicate 67108864 (0xAAAAAAAA :: u32) ! k) j})"
    by (rule ones_count_words)
  also have "\<dots> = (\<Sum>k<(67108864 :: nat). 16)"
  proof (rule sum.cong)
    fix k :: nat
    assume "k \<in> {..<67108864}"
    then have "replicate 67108864 (0xAAAAAAAA :: u32) ! k = 0xAAAAAAAA"
      by simp
    then show "card {j. bit (replicate 67108864 (0xAAAAAAAA :: u32) ! k) j} = 16"
      by (simp only: card_bits_examples)
  qed simp
  finally have "ones_count (replicate 67108864 0xAAAAAAAA) 2147483648 = 1073741824"
    by simp
  with a show ?thesis
    by simp
qed

end
